theory Spec2Isabelle
  imports Main "HOL-Library.Multiset"
begin

section \<open>PR-Radar: news ingestion, staging store and archive (app.py)\<close>

subsection \<open>Strings\<close>

text \<open>
  A Python \<open>str\<close> is a sequence of Unicode code points; the press names of the program are
  Korean, so a string is a list of code points, not of bytes.
\<close>

type_synonym ustr = "nat list"

definition ascii :: "string \<Rightarrow> ustr" where
  "ascii s = map of_char s"

text \<open>\<open>str.isspace\<close> of one code point: the code points Python's \<open>strip()\<close> removes.\<close>

definition py_isspace :: "nat \<Rightarrow> bool" where
  "py_isspace c =
     ((0x9 \<le> c \<and> c \<le> 0xD) \<or> (0x1C \<le> c \<and> c \<le> 0x20) \<or> c = 0x85 \<or> c = 0xA0 \<or> c = 0x1680
      \<or> (0x2000 \<le> c \<and> c \<le> 0x200A) \<or> c = 0x2028 \<or> c = 0x2029 \<or> c = 0x202F
      \<or> c = 0x205F \<or> c = 0x3000)"

text \<open>\<open>s.strip()\<close>\<close>

definition py_strip :: "ustr \<Rightarrow> ustr" where
  "py_strip s = rev (dropWhile py_isspace (rev (dropWhile py_isspace s)))"

text \<open>\<open>s.replace(" ", "")\<close>\<close>

definition remove_spaces :: "ustr \<Rightarrow> ustr" where
  "remove_spaces s = filter (\<lambda>c. c \<noteq> 0x20) s"

text \<open>\<open>s.startswith(k)\<close> and the substring test \<open>k in s\<close>.\<close>

fun starts_with :: "ustr \<Rightarrow> ustr \<Rightarrow> bool" where
  "starts_with s [] = True"
| "starts_with [] (k # ks) = False"
| "starts_with (c # cs) (k # ks) = (c = k \<and> starts_with cs ks)"

fun py_in :: "ustr \<Rightarrow> ustr \<Rightarrow> bool" where
  "py_in k [] = (k = [])"
| "py_in k (c # cs) = (starts_with (c # cs) k \<or> py_in k cs)"

text \<open>\<open>s.replace("www.", "")\<close>: every occurrence, left to right, without overlap.\<close>

definition www_dot :: ustr where
  "www_dot = [0x77, 0x77, 0x77, 0x2E]"

fun remove_www :: "ustr \<Rightarrow> ustr" where
  "remove_www [] = []"
| "remove_www (c # cs) =
     (if starts_with (c # cs) www_dot then remove_www (drop 3 cs) else c # remove_www cs)"

text \<open>\<open>s.split(".")\<close>: never empty; \<open>"".split(".")\<close> is \<open>[""]\<close>.\<close>

fun split_dot :: "ustr \<Rightarrow> ustr list" where
  "split_dot [] = [[]]"
| "split_dot (c # cs) =
     (if c = 0x2E then [] # split_dot cs
      else (case split_dot cs of [] \<Rightarrow> [[c]] | p # ps \<Rightarrow> (c # p) # ps))"

text \<open>\<open>sep.join(xs)\<close>\<close>

fun py_join :: "ustr \<Rightarrow> ustr list \<Rightarrow> ustr" where
  "py_join sep [] = []"
| "py_join sep [x] = x"
| "py_join sep (x # y # ys) = x @ sep @ py_join sep (y # ys)"

text \<open>\<open>re.search(r"[\<dots>]", s)\<close> with the range of the Hangul syllables, U+AC00 to U+D7A3.\<close>

definition has_korean :: "ustr \<Rightarrow> bool" where
  "has_korean s = list_ex (\<lambda>c. 0xAC00 \<le> c \<and> c \<le> 0xD7A3) s"

text \<open>
  \<open>re.sub(r"<[^>]+>", "", s)\<close>: at a \<open><\<close>, the match is the longest run of characters other
  than \<open>>\<close>, which must not be empty, and the \<open>>\<close> that follows it; a \<open><\<close> that starts no
  match is kept.
\<close>

function strip_tags :: "ustr \<Rightarrow> ustr" where
  "strip_tags [] = []"
| "strip_tags (c # cs) =
     (if c = 0x3C \<and> takeWhile (\<lambda>d. d \<noteq> 0x3E) cs \<noteq> [] \<and> dropWhile (\<lambda>d. d \<noteq> 0x3E) cs \<noteq> []
      then strip_tags (tl (dropWhile (\<lambda>d. d \<noteq> 0x3E) cs))
      else c # strip_tags cs)"
  by pat_completeness auto
termination
proof (relation "measure length")
  fix c :: nat and cs :: ustr
  have "length (tl (dropWhile (\<lambda>d. d \<noteq> 0x3E) cs)) \<le> length cs"
    using length_dropWhile_le [of "\<lambda>d. d \<noteq> 0x3E" cs] by simp
  then show "(tl (dropWhile (\<lambda>d. d \<noteq> 0x3E) cs), c # cs) \<in> measure length"
    by simp
qed simp_all

subsection \<open>Library functions\<close>

text \<open>
  The program calls four functions of Python's library whose definitions are tables and
  parsers outside the repository: the Unicode lower-casing of \<open>str.lower\<close>, the network
  location of \<open>urllib.parse.urlparse\<close> (\<open>None\<close> when it raises), \<open>html.unescape\<close>, and
  \<open>datetime.strptime\<close> with the feed's date format followed by dropping the offset
  (\<open>None\<close> when it raises \<open>ValueError\<close>). They are parameters of the model, so every result
  below holds whatever these functions compute.
\<close>

record pylib =
  str_lower :: "ustr \<Rightarrow> ustr"
  urlparse_netloc :: "ustr \<Rightarrow> ustr option"
  html_unescape :: "ustr \<Rightarrow> ustr"
  strptime_pub_date :: "ustr \<Rightarrow> int option"

subsection \<open>Press-name normalizer\<close>

definition unknown_press :: ustr where
  "unknown_press = [0xC5B8, 0xB860, 0xC0AC, 0x20, 0xBBF8, 0xC0C1]"

text \<open>\<open>PRESS_NAME_MAP\<close>, in the order of the dictionary literal, which is its iteration order.\<close>

definition PRESS_NAME_MAP :: "(ustr \<times> ustr) list" where
  "PRESS_NAME_MAP =
     [(ascii ''yna'', [0xC5F0, 0xD569, 0xB274, 0xC2A4]),
      (ascii ''yonhap'', [0xC5F0, 0xD569, 0xB274, 0xC2A4]),
      (ascii ''mk'', [0xB9E4, 0xC77C, 0xACBD, 0xC81C]),
      (ascii ''hankyung'', [0xD55C, 0xAD6D, 0xACBD, 0xC81C]),
      (ascii ''mt'', [0xBA38, 0xB2C8, 0xD22C, 0xB370, 0xC774]),
      (ascii ''sedaily'', [0xC11C, 0xC6B8, 0xACBD, 0xC81C]),
      (ascii ''etnews'', [0xC804, 0xC790, 0xC2E0, 0xBB38]),
      (ascii ''heraldcorp'', [0xD5E4, 0xB7F4, 0xB4DC, 0xACBD, 0xC81C]),
      (ascii ''chosunbiz'', [0xC870, 0xC120, 0xBE44, 0xC988]),
      (ascii ''asiae'', [0xC544, 0xC2DC, 0xC544, 0xACBD, 0xC81C])]"

definition guess_press_from_link :: "pylib \<Rightarrow> ustr \<Rightarrow> ustr" where
  "guess_press_from_link L link =
     (case urlparse_netloc L link of
        None \<Rightarrow> unknown_press
      | Some netloc \<Rightarrow>
          (let host = remove_www (str_lower L netloc) in
           if host = [] then unknown_press
           else (let parts = split_dot host in
                 if length parts \<ge> 2 then parts ! (length parts - 2) else host)))"

text \<open>The loop \<open>for key, ko_name in PRESS_NAME_MAP.items(): if key in s: return ko_name\<close>.\<close>

fun first_alias :: "(ustr \<times> ustr) list \<Rightarrow> ustr \<Rightarrow> ustr option" where
  "first_alias [] s = None"
| "first_alias ((key, ko_name) # rest) s =
     (if py_in key s then Some ko_name else first_alias rest s)"

definition normalize_press_name :: "pylib \<Rightarrow> ustr \<Rightarrow> ustr \<Rightarrow> ustr" where
  "normalize_press_name L raw_press link =
     (let v = py_strip raw_press in
      if v \<noteq> [] \<and> has_korean v then v
      else (let lower_value = remove_spaces (str_lower L v) in
            case first_alias PRESS_NAME_MAP lower_value of
              Some ko_name \<Rightarrow> ko_name
            | None \<Rightarrow>
                (let host_guess = guess_press_from_link L link;
                     lower_host_guess = remove_spaces (str_lower L host_guess) in
                 case first_alias PRESS_NAME_MAP lower_host_guess of
                   Some ko_name \<Rightarrow> ko_name
                 | None \<Rightarrow> if v \<noteq> [] then v else host_guess)))"

subsection \<open>Time\<close>

text \<open>
  A naive \<open>datetime\<close> is the number of microseconds since a fixed origin, and a \<open>timedelta\<close>
  a number of microseconds: Python computes with both exactly.
\<close>

definition timedelta_days :: "int \<Rightarrow> int" where
  "timedelta_days d = d * 86400000000"

definition timedelta_hours :: "int \<Rightarrow> int" where
  "timedelta_hours h = h * 3600000000"

subsection \<open>Data model\<close>

text \<open>The dictionary built by \<open>make_article\<close>; \<open>ident\<close> is its key \<open>"id"\<close>.\<close>

record article =
  ident :: ustr
  title :: ustr
  press :: ustr
  published_at :: int
  link :: ustr
  summary :: ustr
  query_keyword :: ustr
  is_negative :: bool
  negative_hits :: ustr
  collected_at :: int

text \<open>
  The dictionary appended to \<open>saved_articles\<close>; the fields copied from the article carry
  the prefix \<open>saved_\<close>.
\<close>

record saved_article =
  saved_id :: ustr
  article_id :: ustr
  folder :: ustr
  saved_at :: int
  saved_title :: ustr
  saved_press :: ustr
  saved_published_at :: int
  saved_link :: ustr
  saved_summary :: ustr
  saved_negative_hits :: ustr

text \<open>An alert, with its keys \<open>"time"\<close> and \<open>"message"\<close>.\<close>

record alert =
  alert_time :: int
  alert_message :: ustr

text \<open>One result of the search feed; a field is \<open>None\<close> when the key is absent.\<close>

record item =
  item_title :: "ustr option"
  item_description :: "ustr option"
  item_source :: "ustr option"
  item_pubDate :: "ustr option"
  item_originallink :: "ustr option"
  item_link :: "ustr option"

text \<open>
  What \<open>requests.get\<close>, \<open>raise_for_status\<close> and \<open>response.json()\<close> give for one keyword:
  the items of the payload, or a \<open>requests.RequestException\<close>.
\<close>

datatype response = RequestException | Payload "item list"

text \<open>The second component of the result of \<open>collect_news_from_naver\<close>.\<close>

datatype outcome = Api | No_key | Error

text \<open>
  The world outside the program: the library, the two credentials of the environment, and
  what the clock, the UUID generator and the search feed answer to the \<open>n\<close>-th read.
\<close>

record world =
  lib :: pylib
  naver_client_id :: ustr
  naver_client_secret :: ustr
  now_at :: "nat \<Rightarrow> int"
  uuid_at :: "nat \<Rightarrow> ustr"
  requests_get :: "nat \<Rightarrow> ustr \<Rightarrow> response"

text \<open>
  \<open>st.session_state\<close> (its key \<open>"keywords"\<close> is the field \<open>watch_keywords\<close>), with the number
  of reads of the world made so far. The correction
  items are left out: no operation below reads or writes them.
\<close>

record session_state =
  watch_keywords :: "ustr list"
  folders :: "ustr list"
  inbox_articles :: "article list"
  saved_articles :: "saved_article list"
  alerts :: "alert list"
  auto_collect_enabled :: bool
  last_auto_collect_at :: int
  reads :: nat

definition datetime_now :: "world \<Rightarrow> session_state \<Rightarrow> int \<times> session_state" where
  "datetime_now W s = (now_at W (reads s), s\<lparr>reads := Suc (reads s)\<rparr>)"

text \<open>\<open>str(uuid.uuid4())[:8]\<close>\<close>

definition uuid4_8 :: "world \<Rightarrow> session_state \<Rightarrow> ustr \<times> session_state" where
  "uuid4_8 W s = (uuid_at W (reads s), s\<lparr>reads := Suc (reads s)\<rparr>)"

subsection \<open>Article factory\<close>

definition NEGATIVE_KEYWORDS :: "ustr list" where
  "NEGATIVE_KEYWORDS =
     [[0xB17C, 0xB780], [0xC18C, 0xC1A1], [0xAD6C, 0xC124], [0xBD88, 0xB9E4],
      [0xAC11, 0xC9C8], [0xC0AC, 0xACFC, 0xBB38]]"

definition make_article ::
  "world \<Rightarrow> ustr \<Rightarrow> ustr \<Rightarrow> int \<Rightarrow> ustr \<Rightarrow> ustr \<Rightarrow> ustr \<Rightarrow> session_state \<Rightarrow> article \<times> session_state"
where
  "make_article W a_title a_press a_published_at a_link a_summary a_query_keyword s =
     (let hit_keywords = filter (\<lambda>kw. py_in kw a_title \<or> py_in kw a_summary) NEGATIVE_KEYWORDS;
          (new_id, s1) = uuid4_8 W s;
          (now, s2) = datetime_now W s1
      in (\<lparr>ident = new_id, title = a_title, press = a_press, published_at = a_published_at,
           link = a_link, summary = a_summary, query_keyword = a_query_keyword,
           is_negative = (length hit_keywords > 0),
           negative_hits = (if hit_keywords \<noteq> [] then py_join (ascii '', '') hit_keywords else []),
           collected_at = now\<rparr>, s2))"

subsection \<open>Staging store: expiry and alerts\<close>

definition purge_old_inbox :: "world \<Rightarrow> int \<Rightarrow> session_state \<Rightarrow> session_state" where
  "purge_old_inbox W days s =
     (let (now, s1) = datetime_now W s;
          threshold = now - timedelta_days days
      in s1\<lparr>inbox_articles := filter (\<lambda>a. collected_at a \<ge> threshold) (inbox_articles s1)\<rparr>)"

text \<open>
  \<open>sorted(xs, key=f, reverse=True)\<close>: descending by key, and stable, elements with equal
  keys keeping their order in \<open>xs\<close>.
\<close>

definition py_sorted_reverse :: "('a \<Rightarrow> int) \<Rightarrow> 'a list \<Rightarrow> 'a list" where
  "py_sorted_reverse f xs = rev (sort_key f (rev xs))"

definition alert_of :: "article \<Rightarrow> alert" where
  "alert_of a =
     \<lparr>alert_time = published_at a,
      alert_message =
        [0x5B, 0xACBD, 0xACE0, 0x5D, 0x20, 0xBD80, 0xC815, 0x20, 0xD0A4, 0xC6CC, 0xB4DC, 0x28]
        @ negative_hits a @ [0x29, 0x20, 0xAC10, 0xC9C0, 0x20, 0x2D, 0x20] @ title a\<rparr>"

definition refresh_alerts :: "session_state \<Rightarrow> session_state" where
  "refresh_alerts s =
     s\<lparr>alerts := py_sorted_reverse alert_time
                    (map alert_of (filter is_negative (inbox_articles s)))\<rparr>"

subsection \<open>Ingestion connector\<close>

definition naver_api_ready :: "world \<Rightarrow> bool" where
  "naver_api_ready W = (naver_client_id W \<noteq> [] \<and> naver_client_secret W \<noteq> [])"

definition clean_html :: "pylib \<Rightarrow> ustr \<Rightarrow> ustr" where
  "clean_html L raw = py_strip (html_unescape L (strip_tags raw))"

definition parse_naver_pub_date :: "world \<Rightarrow> ustr \<Rightarrow> session_state \<Rightarrow> int \<times> session_state" where
  "parse_naver_pub_date W v s =
     (case strptime_pub_date (lib W) v of Some d \<Rightarrow> (d, s) | None \<Rightarrow> datetime_now W s)"

text \<open>\<open>item.get("originallink") or item.get("link") or ""\<close>\<close>

definition item_resolved_link :: "item \<Rightarrow> ustr" where
  "item_resolved_link it =
     (case item_originallink it of
        Some l \<Rightarrow> if l \<noteq> [] then l else (case item_link it of Some l' \<Rightarrow> l' | None \<Rightarrow> [])
      | None \<Rightarrow> (case item_link it of Some l' \<Rightarrow> l' | None \<Rightarrow> []))"

definition get_or :: "ustr option \<Rightarrow> ustr \<Rightarrow> ustr" where
  "get_or v d = (case v of Some x \<Rightarrow> x | None \<Rightarrow> d)"

definition no_title :: ustr where
  "no_title = [0xC81C, 0xBAA9, 0x20, 0xC5C6, 0xC74C]"

definition default_keyword :: ustr where
  "default_keyword = [0xC0BC, 0xC131, 0xD654, 0xC7AC]"

text \<open>
  The inner loop \<open>for item in items\<close>, on the session state, the set \<open>existing_links\<close>
  and the counter \<open>added\<close>.
\<close>

fun collect_items ::
  "world \<Rightarrow> ustr \<Rightarrow> item list \<Rightarrow> session_state \<times> ustr set \<times> nat \<Rightarrow> session_state \<times> ustr set \<times> nat"
where
  "collect_items W keyword [] acc = acc"
| "collect_items W keyword (it # items) (s, existing_links, added) =
     (let lnk = item_resolved_link it in
      if lnk = [] \<or> lnk \<in> existing_links
      then collect_items W keyword items (s, existing_links, added)
      else
        (let a_title = clean_html (lib W) (get_or (item_title it) no_title);
             a_summary = clean_html (lib W) (get_or (item_description it) []);
             press_raw = clean_html (lib W) (get_or (item_source it) []);
             a_press = normalize_press_name (lib W) press_raw lnk;
             (a_published_at, s1) = parse_naver_pub_date W (get_or (item_pubDate it) []) s;
             (a, s2) = make_article W a_title a_press a_published_at lnk a_summary keyword s1
         in collect_items W keyword items
              (s2\<lparr>inbox_articles := a # inbox_articles s2\<rparr>, insert lnk existing_links,
               added + 1)))"

text \<open>
  The outer loop \<open>for keyword in keywords\<close> inside the \<open>try\<close>: the second component is
  \<open>True\<close> when a request raised, which ends the loop where it is.
\<close>

fun collect_keywords ::
  "world \<Rightarrow> ustr list \<Rightarrow> session_state \<times> ustr set \<times> nat
     \<Rightarrow> (session_state \<times> ustr set \<times> nat) \<times> bool"
where
  "collect_keywords W [] acc = (acc, False)"
| "collect_keywords W (keyword # rest) (s, existing_links, added) =
     (case requests_get W (reads s) keyword of
        RequestException \<Rightarrow> ((s\<lparr>reads := Suc (reads s)\<rparr>, existing_links, added), True)
      | Payload items \<Rightarrow>
          collect_keywords W rest
            (collect_items W keyword items (s\<lparr>reads := Suc (reads s)\<rparr>, existing_links, added)))"

definition collect_news_from_naver ::
  "world \<Rightarrow> session_state \<Rightarrow> session_state \<times> nat \<times> outcome"
where
  "collect_news_from_naver W s =
     (if \<not> (naver_client_id W \<noteq> [] \<and> naver_client_secret W \<noteq> []) then (s, 0, No_key)
      else
        (let kws = (if watch_keywords s = [] then [default_keyword] else watch_keywords s);
             existing_links = link ` set (inbox_articles s)
         in case collect_keywords W kws (s, existing_links, 0) of
              ((s', _, added), raised) \<Rightarrow>
                if raised then (s', 0, Error) else (s', added, Api)))"

subsection \<open>Scheduler and manual trigger\<close>

definition run_hourly_auto_collect :: "world \<Rightarrow> session_state \<Rightarrow> session_state" where
  "run_hourly_auto_collect W s =
     (if \<not> auto_collect_enabled s then s
      else if \<not> naver_api_ready W then s
      else
        (let (now, s1) = datetime_now W s in
         if now - last_auto_collect_at s1 \<ge> timedelta_hours 1
         then (let (s2, added_count, source) = collect_news_from_naver W s1;
                   s3 = refresh_alerts s2
               in s3\<lparr>last_auto_collect_at := now\<rparr>)
         else s1))"

text \<open>The sidebar button that collects now, in \<open>draw_sidebar\<close>.\<close>

definition sidebar_collect_now :: "world \<Rightarrow> session_state \<Rightarrow> session_state" where
  "sidebar_collect_now W s =
     (let (s1, added_count, source) = collect_news_from_naver W s in refresh_alerts s1)"

text \<open>The sidebar button that empties the staging store, in \<open>draw_sidebar\<close>.\<close>

definition sidebar_clear_inbox :: "session_state \<Rightarrow> session_state" where
  "sidebar_clear_inbox s = s\<lparr>inbox_articles := [], alerts := []\<rparr>"

subsection \<open>Promotion into the archive\<close>

text \<open>
  A row of the table returned by \<open>st.data_editor\<close> in \<open>page_inbox\<close>: the check box, the press
  column as \<open>str\<close> renders it, and the hidden column \<open>_id\<close>.
\<close>

record editor_row =
  row_selected :: bool
  row_press :: ustr
  row_id :: ustr

definition all_label :: ustr where
  "all_label = [0xC804, 0xCCB4]"

text \<open>
  The staging store holds one dictionary object per position (\<open>make_article\<close> creates it,
  \<open>insert\<close> stores it once, the purge keeps the surviving objects), and \<open>sorted\<close> and the
  list comprehensions of \<open>page_inbox\<close> build new lists of the same objects. A position of
  \<open>inbox_articles\<close> is therefore the address of an article, and \<open>filtered_articles\<close> is a
  list of positions.
\<close>

definition filtered_articles :: "ustr \<Rightarrow> session_state \<Rightarrow> nat list" where
  "filtered_articles label s =
     (let inbox_sorted =
            py_sorted_reverse (\<lambda>i. published_at (inbox_articles s ! i))
              [0 ..< length (inbox_articles s)]
      in if label = all_label then inbox_sorted
         else filter (\<lambda>i. query_keyword (inbox_articles s ! i) = label) inbox_sorted)"

text \<open>The dictionary comprehension \<open>edited_rows_by_id\<close>: a later row replaces an earlier one.\<close>

definition edited_rows_by_id :: "editor_row list \<Rightarrow> ustr \<Rightarrow> editor_row option" where
  "edited_rows_by_id rows = foldl (\<lambda>m r. m(row_id r \<mapsto> r)) Map.empty rows"

text \<open>
  The local variable \<open>final_press\<close>: the press column of the article's row, or the article's
  press when it has no row, trimmed, and normalized when it is not empty; else the
  article's press, normalized.
\<close>

definition final_press :: "pylib \<Rightarrow> (ustr \<Rightarrow> editor_row option) \<Rightarrow> article \<Rightarrow> ustr" where
  "final_press L rows_by_id a =
     (let edited_press =
            py_strip (case rows_by_id (ident a) of Some r \<Rightarrow> row_press r | None \<Rightarrow> press a)
      in if edited_press \<noteq> [] then normalize_press_name L edited_press (link a)
         else normalize_press_name L (press a) (link a))"

text \<open>
  The loop \<open>for article in filtered_articles\<close> after the save button was pressed;
  \<open>existing_ids\<close> is computed once, before the loop.
\<close>

fun save_articles ::
  "world \<Rightarrow> ustr \<Rightarrow> ustr list \<Rightarrow> ustr set \<Rightarrow> (ustr \<Rightarrow> editor_row option) \<Rightarrow> nat list
     \<Rightarrow> session_state \<Rightarrow> session_state"
where
  "save_articles W target_folder selected_ids existing_ids rows_by_id [] s = s"
| "save_articles W target_folder selected_ids existing_ids rows_by_id (i # rest) s =
     (let a = inbox_articles s ! i in
      if ident a \<in> set selected_ids \<and> ident a \<notin> existing_ids
      then
        (let fp = final_press (lib W) rows_by_id a;
             s1 = s\<lparr>inbox_articles := (inbox_articles s)[i := a\<lparr>press := fp\<rparr>]\<rparr>;
             (new_id, s2) = uuid4_8 W s1;
             (now, s3) = datetime_now W s2;
             s4 = s3\<lparr>saved_articles := saved_articles s3 @
                    [\<lparr>saved_id = new_id, article_id = ident a, folder = target_folder,
                      saved_at = now, saved_title = title a, saved_press = fp,
                      saved_published_at = published_at a, saved_link = link a,
                      saved_summary = summary a, saved_negative_hits = negative_hits a\<rparr>]\<rparr>
         in save_articles W target_folder selected_ids existing_ids rows_by_id rest s4)
      else save_articles W target_folder selected_ids existing_ids rows_by_id rest s)"

text \<open>The branch \<open>if save_clicked\<close> of \<open>page_inbox\<close>, for the tab \<open>label\<close>.\<close>

definition page_inbox_save ::
  "world \<Rightarrow> ustr \<Rightarrow> ustr \<Rightarrow> editor_row list \<Rightarrow> session_state \<Rightarrow> session_state"
where
  "page_inbox_save W target_folder label current_editor s =
     (let selected_ids = map row_id (filter row_selected current_editor) in
      if selected_ids = [] then s
      else
        (let existing_ids = article_id ` set (saved_articles s) in
         save_articles W target_folder selected_ids existing_ids
           (edited_rows_by_id current_editor) (filtered_articles label s) s))"

subsection \<open>Folder deletion\<close>

definition fallback_folder :: ustr where
  "fallback_folder = [0xBBF8, 0xBD84, 0xB958]"

text \<open>The button that deletes the selected folders, in \<open>page_saved_db\<close>.\<close>

definition delete_folders :: "ustr list \<Rightarrow> bool \<Rightarrow> session_state \<Rightarrow> session_state" where
  "delete_folders removable_folders delete_with_articles s =
     (if removable_folders = [] then s
      else
        (let s1 =
               (if delete_with_articles
                then s\<lparr>saved_articles :=
                         filter (\<lambda>x. folder x \<notin> set removable_folders) (saved_articles s)\<rparr>
                else
                  (let s0 = (if fallback_folder \<notin> set (folders s)
                             then s\<lparr>folders := folders s @ [fallback_folder]\<rparr> else s)
                   in s0\<lparr>saved_articles :=
                           map (\<lambda>x. if folder x \<in> set removable_folders
                                     then x\<lparr>folder := fallback_folder\<rparr> else x)
                             (saved_articles s0)\<rparr>));
             s2 = s1\<lparr>folders := filter (\<lambda>f. f \<notin> set removable_folders) (folders s1)\<rparr>
         in if folders s2 = [] then s2\<lparr>folders := [fallback_folder]\<rparr> else s2))"

subsection \<open>A library and a world to run the program on\<close>

text \<open>
  For concrete runs: lower-casing of the ASCII letters, the network location of a URL of
  the form \<open>scheme://host/path\<close>, no entity to decode and no date that parses.
\<close>

definition ascii_lower :: "ustr \<Rightarrow> ustr" where
  "ascii_lower s = map (\<lambda>c. if 0x41 \<le> c \<and> c \<le> 0x5A then c + 32 else c) s"

fun netloc_after_slashes :: "ustr \<Rightarrow> ustr" where
  "netloc_after_slashes [] = []"
| "netloc_after_slashes (c # cs) =
     (if starts_with (c # cs) [0x2F, 0x2F]
      then takeWhile (\<lambda>d. d \<noteq> 0x2F \<and> d \<noteq> 0x3F \<and> d \<noteq> 0x23) (drop 1 cs)
      else netloc_after_slashes cs)"

definition ascii_lib :: pylib where
  "ascii_lib =
     \<lparr>str_lower = ascii_lower, urlparse_netloc = (\<lambda>l. Some (netloc_after_slashes l)),
      html_unescape = (\<lambda>s. s), strptime_pub_date = (\<lambda>v. None)\<rparr>"

text \<open>
  A world with both credentials set, a given clock and a given feed; its \<open>n\<close>-th UUID
  prefix is seven zeros and the last digit of \<open>n\<close>.
\<close>

definition demo_world :: "(nat \<Rightarrow> int) \<Rightarrow> (nat \<Rightarrow> ustr \<Rightarrow> response) \<Rightarrow> world" where
  "demo_world clock feed =
     \<lparr>lib = ascii_lib, naver_client_id = ascii ''id'', naver_client_secret = ascii ''secret'',
      now_at = clock, uuid_at = (\<lambda>n. replicate 7 0x30 @ [0x30 + n mod 10]),
      requests_get = feed\<rparr>"

text \<open>\<open>init_state\<close> on a fresh session: every key is absent, and the clock is read once.\<close>

definition init_state :: "world \<Rightarrow> session_state" where
  "init_state W =
     \<lparr>watch_keywords = [default_keyword],
      folders = [[0xBCF4, 0xB3C4, 0xC790, 0xB8CC], [0xAE30, 0xD68D, 0xAE30, 0xC0AC],
                 [0xC704, 0xAE30, 0xAD00, 0xB9AC], [0xACBD, 0xC7C1, 0xC0AC, 0x20, 0xB3D9, 0xD5A5]],
      inbox_articles = [], saved_articles = [], alerts = [],
      auto_collect_enabled = True, last_auto_collect_at = now_at W 0, reads = 1\<rparr>"

text \<open>An article with a given id, link, publication time, collection time and flag.\<close>

definition demo_article :: "ustr \<Rightarrow> ustr \<Rightarrow> int \<Rightarrow> int \<Rightarrow> bool \<Rightarrow> article" where
  "demo_article i l p c neg =
     \<lparr>ident = i, title = ascii ''T'', press = ascii ''A'', published_at = p, link = l,
      summary = [], query_keyword = default_keyword, is_negative = neg,
      negative_hits = [], collected_at = c\<rparr>"

text \<open>A feed that always fails, and a clock that always shows day \<open>d\<close>.\<close>

definition failing_feed :: "nat \<Rightarrow> ustr \<Rightarrow> response" where
  "failing_feed n keyword = RequestException"

definition day_clock :: "int \<Rightarrow> nat \<Rightarrow> int" where
  "day_clock d n = timedelta_days d"

text \<open>A session whose staging store holds one article, collected at the origin of time.\<close>

definition one_article_state :: "world \<Rightarrow> session_state" where
  "one_article_state W =
     (init_state W)\<lparr>inbox_articles := [demo_article (ascii ''a1'') (ascii ''l1'') 0 0 True]\<rparr>"

text \<open>
  A feed item with a title in markup, the source label \<open>Yonhap\<close>, no date, and a given
  original link; a feed that answers the keyword \<open>A\<close> with one item and fails for every
  other keyword; a feed that answers every keyword with the same item; and a session that
  watches the keywords \<open>A\<close> and \<open>B\<close>.
\<close>

definition demo_item :: "ustr \<Rightarrow> item" where
  "demo_item l =
     \<lparr>item_title = Some (ascii ''<b>News</b>''), item_description = None,
      item_source = Some (ascii ''Yonhap''), item_pubDate = None,
      item_originallink = Some l, item_link = Some (ascii ''https://n.news.naver.com/1'')\<rparr>"

definition first_keyword_feed :: "nat \<Rightarrow> ustr \<Rightarrow> response" where
  "first_keyword_feed n keyword =
     (if keyword = ascii ''A'' then Payload [demo_item (ascii ''https://example.com/1'')]
      else RequestException)"

definition same_link_feed :: "nat \<Rightarrow> ustr \<Rightarrow> response" where
  "same_link_feed n keyword = Payload [demo_item (ascii ''https://example.com/1'')]"

definition two_keyword_state :: "world \<Rightarrow> session_state" where
  "two_keyword_state W = (init_state W)\<lparr>watch_keywords := [ascii ''A'', ascii ''B'']\<rparr>"

text \<open>A row of the editor with the check box set, for the article \<open>i\<close> and with press \<open>p\<close>.\<close>

definition select_row :: "ustr \<Rightarrow> ustr \<Rightarrow> editor_row" where
  "select_row i p = \<lparr>row_selected = True, row_press = p, row_id = i\<rparr>"

text \<open>A session whose archive holds one record, in the only folder \<open>F\<close>.\<close>

definition archived_state :: "world \<Rightarrow> session_state" where
  "archived_state W =
     (init_state W)\<lparr>saved_articles :=
        [\<lparr>saved_id = ascii ''s1'', article_id = ascii ''a1'', folder = ascii ''F'',
          saved_at = 0, saved_title = ascii ''T'', saved_press = ascii ''A'',
          saved_published_at = 0, saved_link = ascii ''l1'', saved_summary = [],
          saved_negative_hits = []\<rparr>],
        folders := [ascii ''F'']\<rparr>"

text \<open>A session whose staging store holds two articles with the same id and different links.\<close>

definition twin_id_state :: "world \<Rightarrow> session_state" where
  "twin_id_state W =
     (init_state W)\<lparr>inbox_articles :=
        [demo_article (ascii ''a1'') (ascii ''l1'') 0 0 True,
         demo_article (ascii ''a1'') (ascii ''l2'') 0 0 False]\<rparr>"

subsection \<open>The state of the collection loops\<close>

text \<open>
  \<open>prepended acc acc' new\<close>: the loop state \<open>acc'\<close> is \<open>acc\<close> with the articles \<open>new\<close> put
  in front of the staging store, their links, which are not empty, differ from each other
  and were not in \<open>existing_links\<close>, added to it, and \<open>added\<close> advanced by their number;
  nothing else of the session changed but the number of reads.
\<close>

definition prepended :: "session_state \<times> ustr set \<times> nat \<Rightarrow> session_state \<times> ustr set \<times> nat \<Rightarrow> article list \<Rightarrow> bool" where
  "prepended acc acc' new \<longleftrightarrow>
     (case acc of (s, ex, n) \<Rightarrow> case acc' of (s', ex', n') \<Rightarrow>
        s' = s\<lparr>reads := reads s', inbox_articles := new @ inbox_articles s\<rparr>
        \<and> ex' = ex \<union> link ` set new \<and> link ` set new \<inter> ex = {}
        \<and> distinct (map link new) \<and> [] \<notin> link ` set new \<and> n' = n + length new)"

section \<open>Properties\<close>

subsection \<open>Expiry of the staging store\<close>

lemma inbox_purge_old_inbox:
  "inbox_articles (purge_old_inbox W days s) =
     filter (\<lambda>a. now_at W (reads s) - collected_at a \<le> timedelta_days days) (inbox_articles s)"
  by (simp add: purge_old_inbox_def datetime_now_def Let_def algebra_simps)

text \<open>
  C3, as the claim states it, fails at the boundary: an article whose age is exactly the
  TTL of seven days is still in the staging store after \<open>purge_old_inbox(7)\<close>.
\<close>

theorem purge_old_inbox_keeps_age_equal_ttl:
  "now_at (demo_world (day_clock 7) failing_feed)
       (reads (one_article_state (demo_world (day_clock 7) failing_feed)))
     - collected_at (demo_article (ascii ''a1'') (ascii ''l1'') 0 0 True) = timedelta_days 7
   \<and> demo_article (ascii ''a1'') (ascii ''l1'') 0 0 True
       \<in> set (inbox_articles (purge_old_inbox (demo_world (day_clock 7) failing_feed) 7
                 (one_article_state (demo_world (day_clock 7) failing_feed))))"
  by (simp add: inbox_purge_old_inbox demo_world_def day_clock_def one_article_state_def
      init_state_def demo_article_def timedelta_days_def)

text \<open>
  C3 (amended): \<open>purge_old_inbox(days)\<close> removes exactly the articles whose age exceeds the
  TTL: an article is in the staging store after the purge if and only if it was there
  before and \<open>now - collected_at > ttl\<close> does not hold. An article collected 8 days ago is
  absent after a purge with 7 days, and a resident one collected 6 days ago remains.
\<close>

theorem purge_old_inbox_removes_older_than_ttl:
  "(a \<in> set (inbox_articles (purge_old_inbox W days s)) \<longleftrightarrow>
      a \<in> set (inbox_articles s)
      \<and> \<not> (now_at W (reads s) - collected_at a > timedelta_days days))
   \<and> (collected_at a = now_at W (reads s) - timedelta_days 8 \<longrightarrow>
        a \<notin> set (inbox_articles (purge_old_inbox W 7 s)))
   \<and> (a \<in> set (inbox_articles s) \<and> collected_at a = now_at W (reads s) - timedelta_days 6 \<longrightarrow>
        a \<in> set (inbox_articles (purge_old_inbox W 7 s)))"
  by (auto simp add: inbox_purge_old_inbox timedelta_days_def)

theorem purge_old_inbox_removes_older_than_ttl_witness:
  "demo_article (ascii ''a1'') (ascii ''l1'') 0 0 True
     \<notin> set (inbox_articles (purge_old_inbox (demo_world (day_clock 8) failing_feed) 7
               (one_article_state (demo_world (day_clock 8) failing_feed))))
   \<and> demo_article (ascii ''a1'') (ascii ''l1'') 0 0 True
     \<in> set (inbox_articles (purge_old_inbox (demo_world (day_clock 6) failing_feed) 7
               (one_article_state (demo_world (day_clock 6) failing_feed))))"
  using purge_old_inbox_removes_older_than_ttl
    [of "demo_article (ascii ''a1'') (ascii ''l1'') 0 0 True"
        "demo_world (day_clock 8) failing_feed" 7
        "one_article_state (demo_world (day_clock 8) failing_feed)"]
    purge_old_inbox_removes_older_than_ttl
    [of "demo_article (ascii ''a1'') (ascii ''l1'') 0 0 True"
        "demo_world (day_clock 6) failing_feed" 7
        "one_article_state (demo_world (day_clock 6) failing_feed)"]
  by (simp add: demo_world_def day_clock_def one_article_state_def init_state_def
      demo_article_def timedelta_days_def)

subsection \<open>Alerts\<close>

lemma mset_py_sorted_reverse: "mset (py_sorted_reverse f xs) = mset xs"
  by (simp add: py_sorted_reverse_def)

lemma length_py_sorted_reverse: "length (py_sorted_reverse f xs) = length xs"
  by (simp add: py_sorted_reverse_def)

lemma set_py_sorted_reverse: "set (py_sorted_reverse f xs) = set xs"
  by (simp add: py_sorted_reverse_def)

lemma distinct_py_sorted_reverse: "distinct (py_sorted_reverse f xs) = distinct xs"
  by (simp add: py_sorted_reverse_def)

lemma sorted_py_sorted_reverse: "sorted (rev (map f (py_sorted_reverse f xs)))"
  by (simp add: py_sorted_reverse_def rev_map)

text \<open>
  C6: for every staging store, the recomputed alert list holds exactly one alert per
  resident article flagged negative and no other (as multisets, the alerts are the images
  of the negative articles), the times of the alerts are the publication times of those
  articles, and the list is sorted descending by time.
\<close>

theorem refresh_alerts_exact:
  "mset (alerts (refresh_alerts s)) =
     image_mset alert_of (filter_mset is_negative (mset (inbox_articles s)))
   \<and> length (alerts (refresh_alerts s)) = length (filter is_negative (inbox_articles s))
   \<and> mset (map alert_time (alerts (refresh_alerts s))) =
       mset (map published_at (filter is_negative (inbox_articles s)))
   \<and> sorted (rev (map alert_time (alerts (refresh_alerts s))))"
  by (simp add: refresh_alerts_def sorted_py_sorted_reverse mset_py_sorted_reverse
      length_py_sorted_reverse alert_of_def multiset.map_comp comp_def)

subsection \<open>Folder deletion\<close>

text \<open>
  C9: deleting folders without cascade keeps the number of saved articles, each article
  of a deleted folder being reassigned to the fallback folder, which is among the folders
  afterwards when it was not itself deleted; with cascade the number decreases by exactly
  the number of saved articles whose folder was deleted.
\<close>

theorem delete_folders_count:
  "length (saved_articles (delete_folders names False s)) = length (saved_articles s)
   \<and> saved_articles (delete_folders names False s) =
       map (\<lambda>x. if folder x \<in> set names then x\<lparr>folder := fallback_folder\<rparr> else x)
         (saved_articles s)
   \<and> (names \<noteq> [] \<and> fallback_folder \<notin> set names \<longrightarrow>
        fallback_folder \<in> set (folders (delete_folders names False s)))
   \<and> length (saved_articles (delete_folders names True s))
       + length (filter (\<lambda>x. folder x \<in> set names) (saved_articles s))
     = length (saved_articles s)
   \<and> saved_articles (delete_folders names True s) =
       filter (\<lambda>x. folder x \<notin> set names) (saved_articles s)"
  using sum_length_filter_compl [of "\<lambda>x. folder x \<in> set names" "saved_articles s"]
  by (simp add: delete_folders_def Let_def add.commute)

theorem delete_folders_count_witness:
  "fallback_folder \<in> set (folders (delete_folders [ascii ''F''] False
       (archived_state (demo_world (day_clock 0) failing_feed))))
   \<and> map folder (saved_articles (delete_folders [ascii ''F''] False
       (archived_state (demo_world (day_clock 0) failing_feed)))) = [fallback_folder]
   \<and> saved_articles (delete_folders [ascii ''F''] True
       (archived_state (demo_world (day_clock 0) failing_feed))) = []"
proof -
  let ?s = "archived_state (demo_world (day_clock 0) failing_feed)"
  have h: "[ascii ''F''] \<noteq> [] \<and> fallback_folder \<notin> set [ascii ''F'']"
    by (simp add: fallback_folder_def ascii_def)
  have f: "map folder (saved_articles ?s) = [ascii ''F'']"
    by (simp add: archived_state_def)
  have 1: "fallback_folder \<in> set (folders (delete_folders [ascii ''F''] False ?s))"
    using delete_folders_count [of "[ascii ''F'']" ?s] h by blast
  have 2: "saved_articles (delete_folders [ascii ''F''] False ?s) =
       map (\<lambda>x. if folder x \<in> set [ascii ''F''] then x\<lparr>folder := fallback_folder\<rparr> else x)
         (saved_articles ?s)"
    using delete_folders_count [of "[ascii ''F'']" ?s] by blast
  have 3: "saved_articles (delete_folders [ascii ''F''] True ?s) =
       filter (\<lambda>x. folder x \<notin> set [ascii ''F'']) (saved_articles ?s)"
    using delete_folders_count [of "[ascii ''F'']" ?s] by blast
  show ?thesis unfolding 2 3 using 1 by (simp add: archived_state_def)
qed

subsection \<open>Press-name normalizer\<close>

lemma starts_with_iff: "starts_with s k \<longleftrightarrow> (\<exists>ss. s = k @ ss)"
  by (induction s k rule: starts_with.induct) auto

lemma py_in_iff: "py_in k s \<longleftrightarrow> (\<exists>ps ss. s = ps @ k @ ss)"
proof (induction s)
  case Nil
  then show ?case by auto
next
  case (Cons c cs)
  show ?case
  proof
    assume "py_in k (c # cs)"
    then consider "starts_with (c # cs) k" | "py_in k cs" by auto
    then show "\<exists>ps ss. c # cs = ps @ k @ ss"
    proof cases
      case 1
      then obtain ss where "c # cs = k @ ss" by (auto simp: starts_with_iff)
      then have "c # cs = [] @ k @ ss" by simp
      then show ?thesis by blast
    next
      case 2
      then obtain ps ss where "cs = ps @ k @ ss" using Cons.IH by auto
      then have "c # cs = (c # ps) @ k @ ss" by simp
      then show ?thesis by blast
    qed
  next
    assume "\<exists>ps ss. c # cs = ps @ k @ ss"
    then obtain ps ss where eq: "c # cs = ps @ k @ ss" by auto
    show "py_in k (c # cs)"
    proof (cases ps)
      case Nil
      then have "starts_with (c # cs) k" using eq by (auto simp: starts_with_iff)
      then show ?thesis by simp
    next
      case (Cons p ps')
      then have "cs = ps' @ k @ ss" using eq by simp
      then have "py_in k cs" using Cons.IH by blast
      then show ?thesis by simp
    qed
  qed
qed

lemma first_alias_find:
  "first_alias tbl s = map_option snd (find (\<lambda>e. py_in (fst e) s) tbl)"
  by (induction tbl s rule: first_alias.induct) auto

lemma first_alias_first:
  "\<forall>e \<in> set pre. \<not> py_in (fst e) s \<Longrightarrow> py_in key s \<Longrightarrow>
   first_alias (pre @ (key, ko_name) # post) s = Some ko_name"
  by (induction pre) auto

lemma first_alias_none: "first_alias tbl s = None \<longleftrightarrow> (\<forall>e \<in> set tbl. \<not> py_in (fst e) s)"
  by (induction tbl s rule: first_alias.induct) auto

lemma split_dot_nonempty: "split_dot s \<noteq> []"
  by (induction s) (auto split: list.splits)

lemma split_dot_no_dot: "0x2E \<notin> set s \<Longrightarrow> split_dot s = [s]"
  by (induction s) auto

lemma split_dot_append: "split_dot (xs @ 0x2E # ys) = split_dot xs @ split_dot ys"
proof (induction xs)
  case Nil
  then show ?case by simp
next
  case (Cons x xs)
  then show ?case using split_dot_nonempty [of xs] by (auto split: list.splits)
qed

lemma split_dot_token:
  assumes "p = [] \<or> last p = 0x2E" "0x2E \<notin> set tok" "0x2E \<notin> set tld"
  shows "\<exists>front. split_dot (p @ tok @ 0x2E # tld) = front @ [tok, tld]"
proof (cases "p = []")
  case True
  then show ?thesis using assms split_dot_append [of tok tld] by (simp add: split_dot_no_dot)
next
  case False
  then obtain q where p: "p = q @ [0x2E]" using assms(1)
    by (metis append_butlast_last_id)
  have "split_dot (p @ tok @ 0x2E # tld) = split_dot (q @ 0x2E # (tok @ 0x2E # tld))"
    by (simp add: p)
  also have "\<dots> = split_dot q @ split_dot (tok @ 0x2E # tld)" by (rule split_dot_append)
  also have "\<dots> = split_dot q @ [tok, tld]"
    using assms split_dot_append [of tok tld] by (simp add: split_dot_no_dot)
  finally show ?thesis by blast
qed

lemma guess_token:
  assumes "urlparse_netloc L lnk = Some n"
    and "remove_www (str_lower L n) = p @ tok @ 0x2E # tld"
    and "p = [] \<or> last p = 0x2E" "0x2E \<notin> set tok" "0x2E \<notin> set tld"
  shows "guess_press_from_link L lnk = tok"
proof -
  obtain front where f: "split_dot (p @ tok @ 0x2E # tld) = front @ [tok, tld]"
    using split_dot_token [OF assms(3-5)] by blast
  have "(front @ [tok, tld]) ! (length (front @ [tok, tld]) - 2) = tok"
    by (simp add: nth_append)
  then show ?thesis using assms(1,2) f
    by (simp add: guess_press_from_link_def Let_def)
qed

text \<open>
  C8, as the claim states it, fails in step (1): the label \<open>" \<dots>"\<close> made of a space and the
  Hangul syllable U+AC00 is not empty and contains a Korean character, and it is not
  returned unchanged, since \<open>normalize_press_name\<close> works on the label without its leading
  and trailing whitespace.
\<close>

theorem normalize_press_name_trims_korean_label:
  "[0x20, 0xAC00] \<noteq> [] \<and> has_korean [0x20, 0xAC00]
   \<and> normalize_press_name ascii_lib [0x20, 0xAC00] [] \<noteq> [0x20, 0xAC00]"
  by (simp add: normalize_press_name_def py_strip_def py_isspace_def has_korean_def)

text \<open>
  C8 (amended): with \<open>v\<close> the raw label without leading and trailing whitespace,
  (1) a non-empty \<open>v\<close> containing a Korean character is returned;
  (2) otherwise the first entry of the alias table whose key occurs in the lower-cased
  \<open>v\<close> without spaces gives the result, and failing that the first entry whose key occurs
  in the lower-cased domain token of the link;
  (3) with no alias match the result is \<open>v\<close> when it is not empty, else the domain token.
  The domain token is the unknown-publisher sentinel when the link has no host (or does
  not parse), and the label before the last one of a host with at least two labels.
  The raw press \<open>Yonhap\<close> gives the Korean name of Yonhap News with any link, whenever
  lower-casing maps \<open>Yonhap\<close> to \<open>yonhap\<close>.
\<close>

theorem normalize_press_name_three_steps:
  "(py_strip raw \<noteq> [] \<and> has_korean (py_strip raw) \<longrightarrow>
      normalize_press_name L raw lnk = py_strip raw)
   \<and> (\<not> (py_strip raw \<noteq> [] \<and> has_korean (py_strip raw)) \<longrightarrow>
        normalize_press_name L raw lnk =
          (case find (\<lambda>e. py_in (fst e) (remove_spaces (str_lower L (py_strip raw)))) PRESS_NAME_MAP of
             Some e \<Rightarrow> snd e
           | None \<Rightarrow>
              (case find (\<lambda>e. py_in (fst e)
                         (remove_spaces (str_lower L (guess_press_from_link L lnk)))) PRESS_NAME_MAP of
                 Some e \<Rightarrow> snd e
               | None \<Rightarrow> if py_strip raw \<noteq> [] then py_strip raw else guess_press_from_link L lnk)))
   \<and> (urlparse_netloc L lnk = None \<or> 
        (\<exists>n. urlparse_netloc L lnk = Some n \<and> remove_www (str_lower L n) = [])
        \<longrightarrow> guess_press_from_link L lnk = unknown_press)
   \<and> (urlparse_netloc L lnk = Some n \<and> remove_www (str_lower L n) = p @ tok @ 0x2E # tld
        \<and> (p = [] \<or> last p = 0x2E) \<and> 0x2E \<notin> set tok \<and> 0x2E \<notin> set tld
        \<longrightarrow> guess_press_from_link L lnk = tok)
   \<and> (str_lower L (ascii ''Yonhap'') = ascii ''yonhap'' \<longrightarrow>
        normalize_press_name L (ascii ''Yonhap'') lnk = [0xC5F0, 0xD569, 0xB274, 0xC2A4])"
proof (intro conjI impI)
  assume "py_strip raw \<noteq> [] \<and> has_korean (py_strip raw)"
  then show "normalize_press_name L raw lnk = py_strip raw"
    by (simp add: normalize_press_name_def)
next
  assume "\<not> (py_strip raw \<noteq> [] \<and> has_korean (py_strip raw))"
  then show "normalize_press_name L raw lnk =
          (case find (\<lambda>e. py_in (fst e) (remove_spaces (str_lower L (py_strip raw)))) PRESS_NAME_MAP of
             Some e \<Rightarrow> snd e
           | None \<Rightarrow>
              (case find (\<lambda>e. py_in (fst e)
                         (remove_spaces (str_lower L (guess_press_from_link L lnk)))) PRESS_NAME_MAP of
                 Some e \<Rightarrow> snd e
               | None \<Rightarrow> if py_strip raw \<noteq> [] then py_strip raw else guess_press_from_link L lnk))"
    by (auto simp add: normalize_press_name_def Let_def first_alias_find split: option.splits)
next
  assume "urlparse_netloc L lnk = None \<or> 
        (\<exists>n. urlparse_netloc L lnk = Some n \<and> remove_www (str_lower L n) = [])"
  then show "guess_press_from_link L lnk = unknown_press"
    by (auto simp add: guess_press_from_link_def)
next
  assume "urlparse_netloc L lnk = Some n \<and> remove_www (str_lower L n) = p @ tok @ 0x2E # tld
        \<and> (p = [] \<or> last p = 0x2E) \<and> 0x2E \<notin> set tok \<and> 0x2E \<notin> set tld"
  then show "guess_press_from_link L lnk = tok"
    using guess_token [of L lnk n p tok tld] by blast
next
  assume "str_lower L (ascii ''Yonhap'') = ascii ''yonhap''"
  then show "normalize_press_name L (ascii ''Yonhap'') lnk = [0xC5F0, 0xD569, 0xB274, 0xC2A4]"
    by (simp add: normalize_press_name_def ascii_def py_strip_def py_isspace_def has_korean_def
        remove_spaces_def PRESS_NAME_MAP_def Let_def)
qed

theorem normalize_press_name_three_steps_witness:
  "normalize_press_name ascii_lib [0xC5F0, 0xD569, 0x20] [] = [0xC5F0, 0xD569]
   \<and> normalize_press_name ascii_lib (ascii ''Daily'') (ascii ''https://example.com/1'') = ascii ''Daily''
   \<and> guess_press_from_link ascii_lib [] = unknown_press
   \<and> guess_press_from_link ascii_lib (ascii ''https://www.News.Hankyung.com/a'') = ascii ''hankyung''
   \<and> normalize_press_name ascii_lib (ascii ''Yonhap'') [] = [0xC5F0, 0xD569, 0xB274, 0xC2A4]"
proof -
  have s: "py_strip [0xC5F0, 0xD569, 0x20] = [0xC5F0, 0xD569]"
    by (simp add: py_strip_def py_isspace_def)
  have h1: "py_strip [0xC5F0, 0xD569, 0x20] \<noteq> [] \<and> has_korean (py_strip [0xC5F0, 0xD569, 0x20])"
    by (simp add: s has_korean_def)
  have d: "py_strip (ascii ''Daily'') = ascii ''Daily''"
    by (simp add: py_strip_def py_isspace_def ascii_def)
  have h2: "\<not> (py_strip (ascii ''Daily'') \<noteq> [] \<and> has_korean (py_strip (ascii ''Daily'')))"
    by (simp add: d) (simp add: has_korean_def ascii_def)
  have g: "guess_press_from_link ascii_lib (ascii ''https://example.com/1'') = ascii ''example''"
    by (simp add: guess_press_from_link_def ascii_lib_def ascii_def ascii_lower_def www_dot_def Let_def)
  have f1: "find (\<lambda>e. py_in (fst e) (remove_spaces (str_lower ascii_lib (ascii ''Daily'')))) PRESS_NAME_MAP = None"
    by (simp add: ascii_lib_def ascii_lower_def remove_spaces_def ascii_def PRESS_NAME_MAP_def)
  have f2: "find (\<lambda>e. py_in (fst e) (remove_spaces (str_lower ascii_lib (ascii ''example'')))) PRESS_NAME_MAP = None"
    by (simp add: ascii_lib_def ascii_lower_def remove_spaces_def ascii_def PRESS_NAME_MAP_def)
  have h3: "urlparse_netloc ascii_lib [] = None \<or>
      (\<exists>n. urlparse_netloc ascii_lib [] = Some n \<and> remove_www (str_lower ascii_lib n) = [])"
    by (simp add: ascii_lib_def ascii_lower_def)
  have h4: "urlparse_netloc ascii_lib (ascii ''https://www.News.Hankyung.com/a'') = Some (ascii ''www.News.Hankyung.com'')
      \<and> remove_www (str_lower ascii_lib (ascii ''www.News.Hankyung.com'')) = ascii ''news.'' @ ascii ''hankyung'' @ 0x2E # ascii ''com''
      \<and> (ascii ''news.'' = [] \<or> last (ascii ''news.'') = 0x2E) \<and> 0x2E \<notin> set (ascii ''hankyung'') \<and> 0x2E \<notin> set (ascii ''com'')"
    by (simp add: ascii_lib_def ascii_lower_def ascii_def www_dot_def)
  have h5: "str_lower ascii_lib (ascii ''Yonhap'') = ascii ''yonhap''"
    by (simp add: ascii_lib_def ascii_lower_def ascii_def)
  note t1 = normalize_press_name_three_steps [where raw = "[0xC5F0, 0xD569, 0x20]" and L = ascii_lib and lnk = "[]"]
  note t2 = normalize_press_name_three_steps [where raw = "ascii ''Daily''" and L = ascii_lib and lnk = "ascii ''https://example.com/1''"]
  note t4 = normalize_press_name_three_steps [where L = ascii_lib and lnk = "ascii ''https://www.News.Hankyung.com/a''"
      and n = "ascii ''www.News.Hankyung.com''" and p = "ascii ''news.''" and tok = "ascii ''hankyung''"
      and tld = "ascii ''com''"]
  have a: "normalize_press_name ascii_lib [0xC5F0, 0xD569, 0x20] [] = [0xC5F0, 0xD569]"
    using t1 h1 unfolding s by blast
  have b: "normalize_press_name ascii_lib (ascii ''Daily'') (ascii ''https://example.com/1'') = ascii ''Daily''"
  proof -
    have "normalize_press_name ascii_lib (ascii ''Daily'') (ascii ''https://example.com/1'') =
      (case find (\<lambda>e. py_in (fst e) (remove_spaces (str_lower ascii_lib (py_strip (ascii ''Daily''))))) PRESS_NAME_MAP of
             Some e \<Rightarrow> snd e
           | None \<Rightarrow>
              (case find (\<lambda>e. py_in (fst e)
                         (remove_spaces (str_lower ascii_lib (guess_press_from_link ascii_lib (ascii ''https://example.com/1''))))) PRESS_NAME_MAP of
                 Some e \<Rightarrow> snd e
               | None \<Rightarrow> if py_strip (ascii ''Daily'') \<noteq> [] then py_strip (ascii ''Daily'')
                   else guess_press_from_link ascii_lib (ascii ''https://example.com/1'')))"
      using t2 h2 by blast
    then show ?thesis unfolding d g f1 f2 by (simp add: ascii_def)
  qed
  have c: "guess_press_from_link ascii_lib [] = unknown_press"
    using t1 h3 by blast
  have e: "guess_press_from_link ascii_lib (ascii ''https://www.News.Hankyung.com/a'') = ascii ''hankyung''"
    using t4 h4 by blast
  have f: "normalize_press_name ascii_lib (ascii ''Yonhap'') [] = [0xC5F0, 0xD569, 0xB274, 0xC2A4]"
    using t1 h5 by blast
  show ?thesis using a b c e f by simp
qed

text \<open>
  C10: alias matching is by containment. For a raw label whose trimmed form has no Korean
  character, an entry of the alias table applies as soon as its key occurs anywhere in
  the lower-cased label without spaces and no earlier key of the table does; when no key
  at all occurs in the label, the same holds with the lower-cased domain token of the
  link.
\<close>

theorem normalize_press_name_alias_by_containment:
  "\<not> has_korean (py_strip raw) \<and> PRESS_NAME_MAP = pre @ (key, ko_name) # post \<and>
   ((\<exists>ps ss. remove_spaces (str_lower L (py_strip raw)) = ps @ key @ ss) \<and>
    (\<forall>e \<in> set pre. \<not> (\<exists>ps ss. remove_spaces (str_lower L (py_strip raw)) = ps @ fst e @ ss))
    \<or>
    (\<forall>e \<in> set PRESS_NAME_MAP. \<not> (\<exists>ps ss. remove_spaces (str_lower L (py_strip raw)) = ps @ fst e @ ss)) \<and>
    (\<exists>ps ss. remove_spaces (str_lower L (guess_press_from_link L lnk)) = ps @ key @ ss) \<and>
    (\<forall>e \<in> set pre. \<not> (\<exists>ps ss. remove_spaces (str_lower L (guess_press_from_link L lnk)) = ps @ fst e @ ss)))
   \<longrightarrow> normalize_press_name L raw lnk = ko_name"
proof (intro impI, elim conjE disjE)
  assume k: "\<not> has_korean (py_strip raw)" and t: "PRESS_NAME_MAP = pre @ (key, ko_name) # post"
    and a: "\<exists>ps ss. remove_spaces (str_lower L (py_strip raw)) = ps @ key @ ss"
    and b: "\<forall>e \<in> set pre. \<not> (\<exists>ps ss. remove_spaces (str_lower L (py_strip raw)) = ps @ fst e @ ss)"
  have "first_alias PRESS_NAME_MAP (remove_spaces (str_lower L (py_strip raw))) = Some ko_name"
    unfolding t using a b by (intro first_alias_first) (simp_all add: py_in_iff)
  then show "normalize_press_name L raw lnk = ko_name"
    using k by (simp add: normalize_press_name_def Let_def)
next
  assume k: "\<not> has_korean (py_strip raw)" and t: "PRESS_NAME_MAP = pre @ (key, ko_name) # post"
    and n: "\<forall>e \<in> set PRESS_NAME_MAP. \<not> (\<exists>ps ss. remove_spaces (str_lower L (py_strip raw)) = ps @ fst e @ ss)"
    and a: "\<exists>ps ss. remove_spaces (str_lower L (guess_press_from_link L lnk)) = ps @ key @ ss"
    and b: "\<forall>e \<in> set pre. \<not> (\<exists>ps ss. remove_spaces (str_lower L (guess_press_from_link L lnk)) = ps @ fst e @ ss)"
  have 1: "first_alias PRESS_NAME_MAP (remove_spaces (str_lower L (py_strip raw))) = None"
    using n by (simp add: first_alias_none py_in_iff)
  have "first_alias PRESS_NAME_MAP (remove_spaces (str_lower L (guess_press_from_link L lnk))) = Some ko_name"
    unfolding t using a b by (intro first_alias_first) (simp_all add: py_in_iff)
  then show "normalize_press_name L raw lnk = ko_name"
    using k 1 by (simp add: normalize_press_name_def Let_def)
qed

theorem normalize_press_name_alias_by_containment_witness:
  "\<not> has_korean (py_strip (ascii ''Gmtx''))
   \<and> remove_spaces (str_lower ascii_lib (py_strip (ascii ''Gmtx''))) = ascii ''g'' @ ascii ''mt'' @ ascii ''x''
   \<and> normalize_press_name ascii_lib (ascii ''Gmtx'') [] = [0xBA38, 0xB2C8, 0xD22C, 0xB370, 0xC774]"
proof -
  have s: "py_strip (ascii ''Gmtx'') = ascii ''Gmtx''"
    by (simp add: py_strip_def py_isspace_def ascii_def)
  have k: "\<not> has_korean (py_strip (ascii ''Gmtx''))"
    by (simp add: s) (simp add: has_korean_def ascii_def)
  have lv: "remove_spaces (str_lower ascii_lib (py_strip (ascii ''Gmtx''))) = ascii ''gmtx''"
    by (simp add: s) (simp add: ascii_lib_def ascii_lower_def remove_spaces_def ascii_def)
  have t: "PRESS_NAME_MAP = take 4 PRESS_NAME_MAP @ (ascii ''mt'', [0xBA38, 0xB2C8, 0xD22C, 0xB370, 0xC774]) # drop 5 PRESS_NAME_MAP"
    by (simp add: PRESS_NAME_MAP_def)
  have o: "\<exists>ps ss. remove_spaces (str_lower ascii_lib (py_strip (ascii ''Gmtx''))) = ps @ ascii ''mt'' @ ss"
    unfolding lv py_in_iff [symmetric] by (simp add: ascii_def)
  have e: "\<forall>e \<in> set (take 4 PRESS_NAME_MAP).
      \<not> (\<exists>ps ss. remove_spaces (str_lower ascii_lib (py_strip (ascii ''Gmtx''))) = ps @ fst e @ ss)"
    unfolding lv py_in_iff [symmetric] by (simp add: PRESS_NAME_MAP_def ascii_def)
  have "normalize_press_name ascii_lib (ascii ''Gmtx'') [] = [0xBA38, 0xB2C8, 0xD22C, 0xB370, 0xC774]"
    using normalize_press_name_alias_by_containment [where raw = "ascii ''Gmtx''" and L = ascii_lib and pre = "take 4 PRESS_NAME_MAP"
        and key = "ascii ''mt''" and ko_name = "[0xBA38, 0xB2C8, 0xD22C, 0xB370, 0xC774]"
        and post = "drop 5 PRESS_NAME_MAP" and lnk = "[]"] k t o e
    by blast
  then show ?thesis using k lv by (simp add: ascii_def)
qed

subsection \<open>Ingestion\<close>

lemmas run_defs = collect_news_from_naver_def demo_world_def day_clock_def two_keyword_state_def
  init_state_def first_keyword_feed_def same_link_feed_def demo_item_def Let_def item_resolved_link_def
  parse_naver_pub_date_def make_article_def uuid4_8_def datetime_now_def get_or_def ascii_lib_def
  failing_feed_def one_article_state_def demo_article_def

lemma make_article_eq:
  "make_article W t p pa l sm k s =
    (fst (make_article W t p pa l sm k s), s\<lparr>reads := Suc (Suc (reads s))\<rparr>)"
  by (simp add: make_article_def uuid4_8_def datetime_now_def Let_def)

lemma link_make_article: "link (fst (make_article W t p pa l sm k s)) = l"
  by (simp add: make_article_def uuid4_8_def datetime_now_def Let_def)

lemma parse_naver_pub_date_state:
  "snd (parse_naver_pub_date W v s) = s\<lparr>reads := reads (snd (parse_naver_pub_date W v s))\<rparr>"
  by (simp add: parse_naver_pub_date_def datetime_now_def split: option.splits)

lemma collect_items_skip:
  "item_resolved_link it = [] \<or> item_resolved_link it \<in> ex \<Longrightarrow>
   collect_items W k (it # items) (s, ex, n) = collect_items W k items (s, ex, n)"
  by (simp add: Let_def)

lemma collect_items_take:
  assumes "item_resolved_link it \<noteq> []" "item_resolved_link it \<notin> ex"
  shows "\<exists>a r. link a = item_resolved_link it \<and>
     collect_items W k (it # items) (s, ex, n) =
       collect_items W k items
         (s\<lparr>reads := r, inbox_articles := a # inbox_articles s\<rparr>, insert (item_resolved_link it) ex, Suc n)"
proof -
  let ?lnk = "item_resolved_link it"
  let ?p = "parse_naver_pub_date W (get_or (item_pubDate it) []) s"
  let ?m = "make_article W (clean_html (lib W) (get_or (item_title it) no_title))
       (normalize_press_name (lib W) (clean_html (lib W) (get_or (item_source it) [])) ?lnk)
       (fst ?p) ?lnk (clean_html (lib W) (get_or (item_description it) [])) k (snd ?p)"
  have p: "snd ?p = s\<lparr>reads := reads (snd ?p)\<rparr>" by (rule parse_naver_pub_date_state)
  have m: "?m = (fst ?m, (snd ?p)\<lparr>reads := Suc (Suc (reads (snd ?p)))\<rparr>)" by (rule make_article_eq)
  have l: "link (fst ?m) = ?lnk" by (rule link_make_article)
  have "collect_items W k (it # items) (s, ex, n) =
     collect_items W k items
       ((snd ?m)\<lparr>inbox_articles := fst ?m # inbox_articles (snd ?m)\<rparr>, insert ?lnk ex, Suc n)"
    using assms by (simp add: Let_def split_beta)
  also have "(snd ?m)\<lparr>inbox_articles := fst ?m # inbox_articles (snd ?m)\<rparr> =
     s\<lparr>reads := Suc (Suc (reads (snd ?p))), inbox_articles := fst ?m # inbox_articles s\<rparr>"
    by (subst (1 2) m, subst (1 2) p) simp
  finally show ?thesis using l by blast
qed

lemma prepended_refl: "prepended (s, ex, n) (s\<lparr>reads := r\<rparr>, ex, n) []"
  by (simp add: prepended_def)

lemma prepended_trans:
  assumes "prepended acc acc1 new1" "prepended acc1 acc2 new2"
  shows "prepended acc acc2 (new2 @ new1)"
proof -
  obtain s ex n s1 ex1 n1 s2 ex2 n2 where
    a: "acc = (s, ex, n)" "acc1 = (s1, ex1, n1)" "acc2 = (s2, ex2, n2)"
    by (metis prod_cases3)
  from assms have
    s1: "s1 = s\<lparr>reads := reads s1, inbox_articles := new1 @ inbox_articles s\<rparr>" and
    s2: "s2 = s1\<lparr>reads := reads s2, inbox_articles := new2 @ inbox_articles s1\<rparr>"
    unfolding a prepended_def by auto
  have "s2 = s\<lparr>reads := reads s2, inbox_articles := (new2 @ new1) @ inbox_articles s\<rparr>"
    by (subst s2, subst (1 2) s1) simp
  moreover have "ex2 = ex \<union> link ` set (new2 @ new1)"
    using assms unfolding a prepended_def by auto
  moreover have "link ` set (new2 @ new1) \<inter> ex = {}"
    using assms unfolding a prepended_def by auto
  moreover have "distinct (map link (new2 @ new1))"
    using assms unfolding a prepended_def by auto
  moreover have "[] \<notin> link ` set (new2 @ new1)"
    using assms unfolding a prepended_def by auto
  moreover have "n2 = n + length (new2 @ new1)"
    using assms unfolding a prepended_def by auto
  ultimately show ?thesis unfolding a prepended_def by blast
qed

lemma prepended_one:
  assumes "link a \<noteq> []" "link a \<notin> ex"
  shows "prepended (s, ex, n) (s\<lparr>reads := r, inbox_articles := a # inbox_articles s\<rparr>, insert (link a) ex, Suc n) [a]"
  using assms by (auto simp: prepended_def)

lemma collect_items_extends:
  "\<exists>new. prepended (s, ex, n) (collect_items W k items (s, ex, n)) new"
proof (induction items arbitrary: s ex n)
  case Nil
  have "prepended (s, ex, n) (s\<lparr>reads := reads s\<rparr>, ex, n) []" by (rule prepended_refl)
  then show ?case by auto
next
  case (Cons it items)
  show ?case
  proof (cases "item_resolved_link it = [] \<or> item_resolved_link it \<in> ex")
    case True
    then show ?thesis using Cons.IH [of s ex n] by (simp only: collect_items_skip)
  next
    case False
    then obtain a r where l: "link a = item_resolved_link it" and
      eq: "collect_items W k (it # items) (s, ex, n) =
       collect_items W k items
         (s\<lparr>reads := r, inbox_articles := a # inbox_articles s\<rparr>, insert (item_resolved_link it) ex, Suc n)"
      using collect_items_take [of it ex W k items s n] by blast
    have 1: "prepended (s, ex, n)
        (s\<lparr>reads := r, inbox_articles := a # inbox_articles s\<rparr>, insert (link a) ex, Suc n) [a]"
      using False l by (intro prepended_one) auto
    obtain new where 2: "prepended
        (s\<lparr>reads := r, inbox_articles := a # inbox_articles s\<rparr>, insert (link a) ex, Suc n)
        (collect_items W k (it # items) (s, ex, n)) new"
      using Cons.IH [of "s\<lparr>reads := r, inbox_articles := a # inbox_articles s\<rparr>" "insert (link a) ex" "Suc n"]
      unfolding eq l by blast
    show ?thesis using prepended_trans [OF 1 2] by blast
  qed
qed

lemma collect_keywords_extends:
  "\<exists>new. prepended (s, ex, n) (fst (collect_keywords W kws (s, ex, n))) new"
proof (induction kws arbitrary: s ex n)
  case Nil
  have "prepended (s, ex, n) (s\<lparr>reads := reads s\<rparr>, ex, n) []" by (rule prepended_refl)
  then show ?case by auto
next
  case (Cons k kws)
  show ?case
  proof (cases "requests_get W (reads s) k")
    case RequestException
    have "prepended (s, ex, n) (s\<lparr>reads := Suc (reads s)\<rparr>, ex, n) []" by (rule prepended_refl)
    then show ?thesis using RequestException by auto
  next
    case (Payload items)
    have 0: "prepended (s, ex, n) (s\<lparr>reads := Suc (reads s)\<rparr>, ex, n) []" by (rule prepended_refl)
    obtain new1 where 1: "prepended (s\<lparr>reads := Suc (reads s)\<rparr>, ex, n)
        (collect_items W k items (s\<lparr>reads := Suc (reads s)\<rparr>, ex, n)) new1"
      using collect_items_extends by blast
    obtain s1 ex1 n1 where c: "collect_items W k items (s\<lparr>reads := Suc (reads s)\<rparr>, ex, n) = (s1, ex1, n1)"
      by (metis prod_cases3)
    obtain new2 where 2: "prepended (s1, ex1, n1) (fst (collect_keywords W kws (s1, ex1, n1))) new2"
      using Cons.IH by blast
    have "fst (collect_keywords W (k # kws) (s, ex, n)) = fst (collect_keywords W kws (s1, ex1, n1))"
      using Payload c by simp
    then show ?thesis using prepended_trans [OF prepended_trans [OF 0 1 [unfolded c]] 2] by auto
  qed
qed

lemma collect_news_from_naver_state:
  "\<exists>new r. fst (collect_news_from_naver W s) = s\<lparr>reads := r, inbox_articles := new @ inbox_articles s\<rparr>
     \<and> link ` set new \<inter> link ` set (inbox_articles s) = {} \<and> distinct (map link new)
     \<and> [] \<notin> link ` set new"
proof (cases "naver_client_id W \<noteq> [] \<and> naver_client_secret W \<noteq> []")
  case False
  have "fst (collect_news_from_naver W s) = s"
    using False by (auto simp: collect_news_from_naver_def)
  then have "fst (collect_news_from_naver W s) = s\<lparr>reads := reads s, inbox_articles := [] @ inbox_articles s\<rparr>
     \<and> link ` set [] \<inter> link ` set (inbox_articles s) = {} \<and> distinct (map link [])
     \<and> [] \<notin> link ` set []" by simp
  then show ?thesis by blast
next
  case True
  let ?kws = "if watch_keywords s = [] then [default_keyword] else watch_keywords s"
  let ?res = "collect_keywords W ?kws (s, link ` set (inbox_articles s), 0)"
  obtain new where e: "prepended (s, link ` set (inbox_articles s), 0) (fst ?res) new"
    using collect_keywords_extends by blast
  have "fst (collect_news_from_naver W s) = fst (fst ?res)"
    using True by (simp add: collect_news_from_naver_def Let_def split: prod.splits)
  then show ?thesis using e by (cases "fst ?res") (auto simp: prepended_def)
qed

lemma collect_keywords_append:
  "collect_keywords W (pre @ rest) acc =
     (case collect_keywords W pre acc of
        (acc', True) \<Rightarrow> (acc', True)
      | (acc', False) \<Rightarrow> collect_keywords W rest acc')"
proof (induction pre arbitrary: acc)
  case Nil
  then show ?case by simp
next
  case (Cons k pre)
  obtain s ex n where a: "acc = (s, ex, n)" by (metis prod_cases3)
  show ?case unfolding a using Cons.IH by (cases "requests_get W (reads s) k") simp_all
qed

lemma collect_keywords_stops:
  assumes "collect_keywords W pre (s, ex, n) = ((s1, ex1, n1), False)"
    and "requests_get W (reads s1) k = RequestException"
  shows "collect_keywords W (pre @ k # post) (s, ex, n) = ((s1\<lparr>reads := Suc (reads s1)\<rparr>, ex1, n1), True)"
  using assms by (simp add: collect_keywords_append)

lemma distinct_links_append:
  assumes "distinct (map link old)" "distinct (map link new)" "link ` set new \<inter> link ` set old = {}"
  shows "distinct (map link (new @ old))"
  using assms by auto

text \<open>
  C1, as the claim states it, fails: with the keywords \<open>A\<close> and \<open>B\<close>, a feed that answers
  \<open>A\<close> with one item and fails for \<open>B\<close> makes the run return the error outcome, and the
  article of \<open>A\<close> is in the staging store, which was empty before the run.
\<close>

theorem collect_error_after_first_keyword_commits:
  "snd (snd (collect_news_from_naver (demo_world (day_clock 0) first_keyword_feed)
        (two_keyword_state (demo_world (day_clock 0) first_keyword_feed)))) = Error
   \<and> length (inbox_articles (fst (collect_news_from_naver (demo_world (day_clock 0) first_keyword_feed)
        (two_keyword_state (demo_world (day_clock 0) first_keyword_feed))))) = 1
   \<and> inbox_articles (two_keyword_state (demo_world (day_clock 0) first_keyword_feed)) = []"
  by (simp add: run_defs ascii_def)

text \<open>
  C1 (amended): a run that returns the error outcome removes and changes no article that
  was resident before it: the staging store after the run is the store before it with
  new articles in front, and nothing else of the session changes. When the request of
  the first keyword fails, the run returns \<open>(0, error)\<close> and the staging store is the one
  before the run. In general the run stops at the first failing request and keeps what
  the keywords before it committed.
\<close>

theorem collect_error_keeps_resident_articles:
  "(snd (snd (collect_news_from_naver W s)) = Error \<longrightarrow>
      (\<exists>new. fst (collect_news_from_naver W s) =
          s\<lparr>reads := reads (fst (collect_news_from_naver W s)),
            inbox_articles := new @ inbox_articles s\<rparr>))
   \<and> (naver_api_ready W \<and>
        requests_get W (reads s)
          (hd (if watch_keywords s = [] then [default_keyword] else watch_keywords s))
          = RequestException \<longrightarrow>
        snd (collect_news_from_naver W s) = (0, Error)
        \<and> inbox_articles (fst (collect_news_from_naver W s)) = inbox_articles s)
   \<and> (collect_keywords W pre (s, ex, n) = ((s1, ex1, n1), False)
        \<and> requests_get W (reads s1) k = RequestException \<longrightarrow>
        collect_keywords W (pre @ k # post) (s, ex, n)
          = ((s1\<lparr>reads := Suc (reads s1)\<rparr>, ex1, n1), True))"
proof -
  obtain new r where "fst (collect_news_from_naver W s) =
      s\<lparr>reads := r, inbox_articles := new @ inbox_articles s\<rparr>"
    using collect_news_from_naver_state [of W s] by blast
  then have "fst (collect_news_from_naver W s) =
          s\<lparr>reads := reads (fst (collect_news_from_naver W s)),
            inbox_articles := new @ inbox_articles s\<rparr>" by simp
  then have 1: "\<exists>new. fst (collect_news_from_naver W s) =
          s\<lparr>reads := reads (fst (collect_news_from_naver W s)),
            inbox_articles := new @ inbox_articles s\<rparr>" by blast
  have 2: "snd (collect_news_from_naver W s) = (0, Error)
        \<and> inbox_articles (fst (collect_news_from_naver W s)) = inbox_articles s"
    if a: "naver_api_ready W \<and>
        requests_get W (reads s)
          (hd (if watch_keywords s = [] then [default_keyword] else watch_keywords s))
          = RequestException"
  proof -
    let ?kws = "if watch_keywords s = [] then [default_keyword] else watch_keywords s"
    have "?kws \<noteq> []" by simp
    then obtain k rest where k: "?kws = k # rest" by (cases ?kws) auto
    then have "requests_get W (reads s) k = RequestException" using a by simp
    then have "collect_keywords W ?kws (s, link ` set (inbox_articles s), 0)
       = ((s\<lparr>reads := Suc (reads s)\<rparr>, link ` set (inbox_articles s), 0), True)"
      unfolding k by simp
    then have "collect_news_from_naver W s = (s\<lparr>reads := Suc (reads s)\<rparr>, 0, Error)"
      using a by (simp add: collect_news_from_naver_def naver_api_ready_def Let_def)
    then show ?thesis by simp
  qed
  have 3: "collect_keywords W (pre @ k # post) (s, ex, n)
          = ((s1\<lparr>reads := Suc (reads s1)\<rparr>, ex1, n1), True)"
    if "collect_keywords W pre (s, ex, n) = ((s1, ex1, n1), False)
        \<and> requests_get W (reads s1) k = RequestException"
    using that collect_keywords_stops by blast
  show ?thesis using 1 2 3 by blast
qed

theorem collect_error_keeps_resident_articles_witness:
  "snd (collect_news_from_naver (demo_world (day_clock 0) failing_feed)
      (one_article_state (demo_world (day_clock 0) failing_feed))) = (0, Error)
   \<and> inbox_articles (fst (collect_news_from_naver (demo_world (day_clock 0) failing_feed)
        (one_article_state (demo_world (day_clock 0) failing_feed))))
     = inbox_articles (one_article_state (demo_world (day_clock 0) failing_feed))
   \<and> snd (collect_keywords (demo_world (day_clock 0) first_keyword_feed)
          ([ascii ''A''] @ ascii ''B'' # [ascii ''C''])
          (two_keyword_state (demo_world (day_clock 0) first_keyword_feed), {}, 0))
   \<and> inbox_articles (fst (fst (collect_keywords (demo_world (day_clock 0) first_keyword_feed)
          ([ascii ''A''] @ ascii ''B'' # [ascii ''C''])
          (two_keyword_state (demo_world (day_clock 0) first_keyword_feed), {}, 0))))
     = inbox_articles (fst (fst (collect_keywords (demo_world (day_clock 0) first_keyword_feed)
          [ascii ''A'']
          (two_keyword_state (demo_world (day_clock 0) first_keyword_feed), {}, 0))))"
proof -
  let ?W = "demo_world (day_clock 0) failing_feed"
  let ?s = "one_article_state ?W"
  have h: "naver_api_ready ?W \<and>
        requests_get ?W (reads ?s)
          (hd (if watch_keywords ?s = [] then [default_keyword] else watch_keywords ?s))
          = RequestException"
    by (simp add: demo_world_def naver_api_ready_def failing_feed_def ascii_def)
  let ?V = "demo_world (day_clock 0) first_keyword_feed"
  let ?t = "two_keyword_state ?V"
  let ?X = "collect_keywords ?V [ascii ''A''] (?t, {}, 0)"
  have x: "snd ?X = False"
    by (simp add: run_defs ascii_def)
  have g: "collect_keywords ?V [ascii ''A''] (?t, {}, 0)
            = ((fst (fst ?X), fst (snd (fst ?X)), snd (snd (fst ?X))), False)
        \<and> requests_get ?V (reads (fst (fst ?X))) (ascii ''B'') = RequestException"
    using x by (simp add: prod_eq_iff) (simp add: demo_world_def first_keyword_feed_def ascii_def)
  have 1: "snd (collect_news_from_naver ?W ?s) = (0, Error)
        \<and> inbox_articles (fst (collect_news_from_naver ?W ?s)) = inbox_articles ?s"
    using collect_error_keeps_resident_articles [of ?W ?s] h by blast
  have 2: "collect_keywords ?V ([ascii ''A''] @ ascii ''B'' # [ascii ''C'']) (?t, {}, 0)
          = (((fst (fst ?X))\<lparr>reads := Suc (reads (fst (fst ?X)))\<rparr>, fst (snd (fst ?X)), snd (snd (fst ?X))), True)"
    using collect_error_keeps_resident_articles
      [where W = ?V and pre = "[ascii ''A'']" and s = ?t and ex = "{}" and n = 0
        and ?s1.0 = "fst (fst ?X)" and ?ex1.0 = "fst (snd (fst ?X))" and ?n1.0 = "snd (snd (fst ?X))"
        and k = "ascii ''B''" and post = "[ascii ''C'']"] g
    by blast
  have 3: "snd (collect_keywords ?V ([ascii ''A''] @ ascii ''B'' # [ascii ''C'']) (?t, {}, 0))
      \<and> inbox_articles (fst (fst (collect_keywords ?V
            ([ascii ''A''] @ ascii ''B'' # [ascii ''C'']) (?t, {}, 0))))
        = inbox_articles (fst (fst ?X))"
    unfolding 2 by simp
  show ?thesis using 1 3 by blast
qed

text \<open>
  C4: link uniqueness is an invariant of ingestion. If no two articles of the staging
  store share a link before a run, none do after it, whatever the feed answers and whatever
  the outcome; the same holds for the keyword loop from any set of seen links that
  contains the links of the store. An item whose resolved link is empty or already seen
  is skipped; the resolved link is the original link when it is present and not empty,
  else the canonical link, else empty.
\<close>

theorem collect_keeps_links_unique:
  "(distinct (map link (inbox_articles s)) \<longrightarrow>
      distinct (map link (inbox_articles (fst (collect_news_from_naver W s)))))
   \<and> (distinct (map link (inbox_articles s)) \<and> link ` set (inbox_articles s) \<subseteq> ex \<longrightarrow>
        distinct (map link (inbox_articles (fst (fst (collect_keywords W kws (s, ex, n)))))))
   \<and> (item_resolved_link it = [] \<or> item_resolved_link it \<in> ex \<longrightarrow>
        collect_items W k (it # items) (s, ex, n) = collect_items W k items (s, ex, n))
   \<and> (item_originallink it = Some l \<and> l \<noteq> [] \<longrightarrow> item_resolved_link it = l)
   \<and> (item_originallink it = None \<or> item_originallink it = Some [] \<longrightarrow>
        item_resolved_link it = get_or (item_link it) [])"
proof (intro conjI impI)
  assume d: "distinct (map link (inbox_articles s))"
  obtain new r where "fst (collect_news_from_naver W s) = s\<lparr>reads := r, inbox_articles := new @ inbox_articles s\<rparr>"
    and "link ` set new \<inter> link ` set (inbox_articles s) = {}" and "distinct (map link new)"
    using collect_news_from_naver_state [of W s] by blast
  then show "distinct (map link (inbox_articles (fst (collect_news_from_naver W s))))"
    using distinct_links_append [OF d, of new] by simp
next
  assume a: "distinct (map link (inbox_articles s)) \<and> link ` set (inbox_articles s) \<subseteq> ex"
  obtain new where e: "prepended (s, ex, n) (fst (collect_keywords W kws (s, ex, n))) new"
    using collect_keywords_extends by blast
  obtain s' ex' n' where f: "fst (collect_keywords W kws (s, ex, n)) = (s', ex', n')"
    by (metis prod_cases3)
  have "inbox_articles s' = new @ inbox_articles s" "distinct (map link new)"
    "link ` set new \<inter> ex = {}"
    using e unfolding f prepended_def by (auto, metis (no_types) session_state.select_convs(3) session_state.surjective session_state.update_convs(3))
  then have "distinct (map link (inbox_articles s'))"
    using a distinct_links_append [of "inbox_articles s" new] by auto
  then show "distinct (map link (inbox_articles (fst (fst (collect_keywords W kws (s, ex, n))))))"
    by (simp add: f)
next
  assume "item_resolved_link it = [] \<or> item_resolved_link it \<in> ex"
  then show "collect_items W k (it # items) (s, ex, n) = collect_items W k items (s, ex, n)"
    by (rule collect_items_skip)
next
  assume "item_originallink it = Some l \<and> l \<noteq> []"
  then show "item_resolved_link it = l" by (simp add: item_resolved_link_def)
next
  assume "item_originallink it = None \<or> item_originallink it = Some []"
  then show "item_resolved_link it = get_or (item_link it) []"
    by (auto simp: item_resolved_link_def get_or_def)
qed

theorem collect_keeps_links_unique_witness:
  "distinct (map link (inbox_articles (fst (collect_news_from_naver
       (demo_world (day_clock 0) same_link_feed)
       (two_keyword_state (demo_world (day_clock 0) same_link_feed))))))
   \<and> map query_keyword (inbox_articles (fst (collect_news_from_naver
       (demo_world (day_clock 0) same_link_feed)
       (two_keyword_state (demo_world (day_clock 0) same_link_feed))))) = [ascii ''A'']"
proof -
  let ?W = "demo_world (day_clock 0) same_link_feed"
  let ?s = "two_keyword_state ?W"
  have h: "distinct (map link (inbox_articles ?s))"
    by (simp add: two_keyword_state_def init_state_def)
  have q: "map query_keyword (inbox_articles (fst (collect_news_from_naver ?W ?s))) = [ascii ''A'']"
    by (simp add: run_defs ascii_def)
  show ?thesis using collect_keeps_links_unique [of ?s ?W] h q by blast
qed

subsection \<open>Scheduler\<close>

lemma last_collect: "last_auto_collect_at (fst (collect_news_from_naver W s)) = last_auto_collect_at s"
proof -
  obtain new r where "fst (collect_news_from_naver W s) = s\<lparr>reads := r, inbox_articles := new @ inbox_articles s\<rparr>"
    using collect_news_from_naver_state [of W s] by blast
  then show ?thesis by simp
qed

text \<open>
  C7: a scheduler tick with automatic collection enabled, credentials present and at
  least one hour since \<open>last_auto_collect_at\<close> runs \<open>collect_news_from_naver\<close> on the
  session (after the read of the clock), recomputes the alerts and then sets
  \<open>last_auto_collect_at\<close> to the time of the tick, whatever the feed answers (also when
  the collection returns the error outcome); any other tick collects nothing and leaves
  \<open>last_auto_collect_at\<close> unchanged. The manual trigger of the sidebar runs the same
  \<open>collect_news_from_naver\<close> and recomputes the alerts, and leaves \<open>last_auto_collect_at\<close>
  unchanged, for every state.
\<close>

theorem only_scheduled_path_updates_last_run:
  "(auto_collect_enabled s \<and> naver_api_ready W
      \<and> now_at W (reads s) - last_auto_collect_at s \<ge> timedelta_hours 1 \<longrightarrow>
      last_auto_collect_at (run_hourly_auto_collect W s) = now_at W (reads s)
      \<and> run_hourly_auto_collect W s =
          (refresh_alerts (fst (collect_news_from_naver W (s\<lparr>reads := Suc (reads s)\<rparr>))))
            \<lparr>last_auto_collect_at := now_at W (reads s)\<rparr>
      \<and> inbox_articles (run_hourly_auto_collect W s) =
          inbox_articles (fst (collect_news_from_naver W (s\<lparr>reads := Suc (reads s)\<rparr>))))
   \<and> (\<not> (auto_collect_enabled s \<and> naver_api_ready W
           \<and> now_at W (reads s) - last_auto_collect_at s \<ge> timedelta_hours 1) \<longrightarrow>
        last_auto_collect_at (run_hourly_auto_collect W s) = last_auto_collect_at s
        \<and> inbox_articles (run_hourly_auto_collect W s) = inbox_articles s)
   \<and> last_auto_collect_at (sidebar_collect_now W s) = last_auto_collect_at s
   \<and> sidebar_collect_now W s = refresh_alerts (fst (collect_news_from_naver W s))
   \<and> inbox_articles (sidebar_collect_now W s) = inbox_articles (fst (collect_news_from_naver W s))"
proof -
  have 1: "last_auto_collect_at (run_hourly_auto_collect W s) = now_at W (reads s)
      \<and> run_hourly_auto_collect W s =
          (refresh_alerts (fst (collect_news_from_naver W (s\<lparr>reads := Suc (reads s)\<rparr>))))
            \<lparr>last_auto_collect_at := now_at W (reads s)\<rparr>
      \<and> inbox_articles (run_hourly_auto_collect W s) =
          inbox_articles (fst (collect_news_from_naver W (s\<lparr>reads := Suc (reads s)\<rparr>)))"
    if "auto_collect_enabled s \<and> naver_api_ready W
      \<and> now_at W (reads s) - last_auto_collect_at s \<ge> timedelta_hours 1"
    using that
    by (simp add: run_hourly_auto_collect_def datetime_now_def Let_def split_beta refresh_alerts_def)
  have 2: "last_auto_collect_at (run_hourly_auto_collect W s) = last_auto_collect_at s
        \<and> inbox_articles (run_hourly_auto_collect W s) = inbox_articles s"
    if "\<not> (auto_collect_enabled s \<and> naver_api_ready W
           \<and> now_at W (reads s) - last_auto_collect_at s \<ge> timedelta_hours 1)"
    using that
    by (auto simp add: run_hourly_auto_collect_def datetime_now_def Let_def split_beta)
  have 3: "last_auto_collect_at (sidebar_collect_now W s) = last_auto_collect_at s"
    by (simp add: sidebar_collect_now_def split_beta refresh_alerts_def last_collect)
  have 4: "sidebar_collect_now W s = refresh_alerts (fst (collect_news_from_naver W s))"
    by (simp add: sidebar_collect_now_def split_beta)
  have 5: "inbox_articles (sidebar_collect_now W s) = inbox_articles (fst (collect_news_from_naver W s))"
    by (simp add: 4 refresh_alerts_def)
  show ?thesis using 1 2 3 4 5 by blast
qed

theorem only_scheduled_path_updates_last_run_witness:
  "snd (snd (collect_news_from_naver (demo_world (day_clock 1) first_keyword_feed)
      ((two_keyword_state (demo_world (day_clock 1) first_keyword_feed))
         \<lparr>last_auto_collect_at := 0, reads := 2\<rparr>))) = Error
   \<and> map link (inbox_articles (run_hourly_auto_collect (demo_world (day_clock 1) first_keyword_feed)
        ((two_keyword_state (demo_world (day_clock 1) first_keyword_feed))\<lparr>last_auto_collect_at := 0\<rparr>)))
      = [ascii ''https://example.com/1'']
   \<and> last_auto_collect_at (run_hourly_auto_collect (demo_world (day_clock 1) first_keyword_feed)
        ((two_keyword_state (demo_world (day_clock 1) first_keyword_feed))\<lparr>last_auto_collect_at := 0\<rparr>))
      = timedelta_days 1
   \<and> map link (inbox_articles (sidebar_collect_now (demo_world (day_clock 1) first_keyword_feed)
        ((two_keyword_state (demo_world (day_clock 1) first_keyword_feed))\<lparr>last_auto_collect_at := 0\<rparr>)))
      = [ascii ''https://example.com/1'']
   \<and> last_auto_collect_at (sidebar_collect_now (demo_world (day_clock 1) first_keyword_feed)
        ((two_keyword_state (demo_world (day_clock 1) first_keyword_feed))\<lparr>last_auto_collect_at := 0\<rparr>)) = 0"
proof -
  let ?W = "demo_world (day_clock 1) first_keyword_feed"
  let ?s = "(two_keyword_state ?W)\<lparr>last_auto_collect_at := 0\<rparr>"
  have h: "auto_collect_enabled ?s \<and> naver_api_ready ?W
      \<and> now_at ?W (reads ?s) - last_auto_collect_at ?s \<ge> timedelta_hours 1"
    by (simp add: two_keyword_state_def init_state_def demo_world_def naver_api_ready_def
        day_clock_def timedelta_days_def timedelta_hours_def ascii_def)
  have r: "?s\<lparr>reads := Suc (reads ?s)\<rparr> = (two_keyword_state ?W)\<lparr>last_auto_collect_at := 0, reads := 2\<rparr>"
    by (simp add: two_keyword_state_def init_state_def)
  have e: "snd (snd (collect_news_from_naver ?W
      ((two_keyword_state ?W)\<lparr>last_auto_collect_at := 0, reads := 2\<rparr>))) = Error"
    by (simp add: run_defs ascii_def)
  have i1: "map link (inbox_articles (fst (collect_news_from_naver ?W
      ((two_keyword_state ?W)\<lparr>last_auto_collect_at := 0, reads := 2\<rparr>)))) = [ascii ''https://example.com/1'']"
    by (simp add: run_defs ascii_def)
  have i2: "map link (inbox_articles (fst (collect_news_from_naver ?W ?s))) = [ascii ''https://example.com/1'']"
    by (simp add: run_defs ascii_def)
  have n: "now_at ?W (reads ?s) = timedelta_days 1" "last_auto_collect_at ?s = 0"
    by (simp_all add: demo_world_def day_clock_def)
  note t = only_scheduled_path_updates_last_run [of ?s ?W]
  have a: "inbox_articles (run_hourly_auto_collect ?W ?s) =
          inbox_articles (fst (collect_news_from_naver ?W (?s\<lparr>reads := Suc (reads ?s)\<rparr>)))"
    using t h by blast
  have b: "last_auto_collect_at (run_hourly_auto_collect ?W ?s) = now_at ?W (reads ?s)"
    using t h by blast
  have c: "inbox_articles (sidebar_collect_now ?W ?s) = inbox_articles (fst (collect_news_from_naver ?W ?s))"
    using t by blast
  have d: "last_auto_collect_at (sidebar_collect_now ?W ?s) = last_auto_collect_at ?s"
    using t by blast
  show ?thesis unfolding a b c d r n using e i1 i2 by blast
qed

subsection \<open>Promotion\<close>

lemmas promote_defs = page_inbox_save_def filtered_articles_def edited_rows_by_id_def
  py_sorted_reverse_def final_press_def select_row_def one_article_state_def init_state_def
  demo_article_def demo_world_def uuid4_8_def datetime_now_def all_label_def
  normalize_press_name_def guess_press_from_link_def ascii_lib_def ascii_lower_def
  py_strip_def py_isspace_def has_korean_def remove_spaces_def PRESS_NAME_MAP_def
  unknown_press_def Let_def

lemma save_articles_skip:
  "\<not> (ident (inbox_articles s ! i) \<in> set sel \<and> ident (inbox_articles s ! i) \<notin> ex) \<Longrightarrow>
   save_articles W f sel ex rows (i # rest) s = save_articles W f sel ex rows rest s"
  by (auto simp add: Let_def)

lemma save_articles_take:
  assumes "ident (inbox_articles s ! i) \<in> set sel" "ident (inbox_articles s ! i) \<notin> ex"
  shows "save_articles W f sel ex rows (i # rest) s =
     save_articles W f sel ex rows rest
       (s\<lparr>inbox_articles := (inbox_articles s)
             [i := (inbox_articles s ! i)\<lparr>press := final_press (lib W) rows (inbox_articles s ! i)\<rparr>],
          reads := Suc (Suc (reads s)),
          saved_articles := saved_articles s @
             [\<lparr>saved_id = uuid_at W (reads s), article_id = ident (inbox_articles s ! i),
               folder = f, saved_at = now_at W (Suc (reads s)),
               saved_title = title (inbox_articles s ! i),
               saved_press = final_press (lib W) rows (inbox_articles s ! i),
               saved_published_at = published_at (inbox_articles s ! i),
               saved_link = link (inbox_articles s ! i),
               saved_summary = summary (inbox_articles s ! i),
               saved_negative_hits = negative_hits (inbox_articles s ! i)\<rparr>]\<rparr>)"
  using assms by (simp add: Let_def uuid4_8_def datetime_now_def)

lemma list_update_same_image:
  "g y = g (xs ! i) \<Longrightarrow> map g (xs[i := y]) = map g xs"
  by (cases "i < length xs") (simp_all add: map_update list_update_same_conv list_update_beyond)


lemma save_articles_fields:
  "map (\<lambda>a. a\<lparr>press := []\<rparr>) (inbox_articles (save_articles W f sel ex rows is s))
     = map (\<lambda>a. a\<lparr>press := []\<rparr>) (inbox_articles s)"
proof (induction "is" arbitrary: s)
  case Nil
  then show ?case by simp
next
  case (Cons i rest)
  show ?case
  proof (cases "ident (inbox_articles s ! i) \<in> set sel \<and> ident (inbox_articles s ! i) \<notin> ex")
    case False
    show ?thesis unfolding save_articles_skip [OF False] by (rule Cons.IH)
  next
    case True
    then have t: "ident (inbox_articles s ! i) \<in> set sel" "ident (inbox_articles s ! i) \<notin> ex" by auto
    show ?thesis
      unfolding save_articles_take [OF t]
      by (subst Cons.IH) (simp add: list_update_same_image)
  qed
qed

lemma save_articles_untouched:
  assumes "j \<notin> set is \<or> ident (inbox_articles s ! j) \<notin> set sel \<or> ident (inbox_articles s ! j) \<in> ex"
  shows "inbox_articles (save_articles W f sel ex rows is s) ! j = inbox_articles s ! j"
  using assms
proof (induction "is" arbitrary: s)
  case Nil
  then show ?case by simp
next
  case (Cons i rest)
  show ?case
  proof (cases "ident (inbox_articles s ! i) \<in> set sel \<and> ident (inbox_articles s ! i) \<notin> ex")
    case False
    show ?thesis unfolding save_articles_skip [OF False] using Cons.prems False
      by (intro Cons.IH) auto
  next
    case True
    then have t: "ident (inbox_articles s ! i) \<in> set sel" "ident (inbox_articles s ! i) \<notin> ex" by auto
    have ne: "j \<noteq> i" using Cons.prems True by auto
    show ?thesis
      unfolding save_articles_take [OF t]
      by (subst Cons.IH) (use Cons.prems ne in auto)
  qed
qed

lemma save_articles_saved:
  "\<exists>new. saved_articles (save_articles W f sel ex rows is s) = saved_articles s @ new
     \<and> ((\<forall>i \<in> set is. i < length (inbox_articles s)) \<longrightarrow>
          map article_id new
            = filter (\<lambda>x. x \<in> set sel \<and> x \<notin> ex) (map (\<lambda>i. ident (inbox_articles s ! i)) is))"
proof (induction "is" arbitrary: s)
  case Nil
  then show ?case by simp
next
  case (Cons i rest)
  show ?case
  proof (cases "ident (inbox_articles s ! i) \<in> set sel \<and> ident (inbox_articles s ! i) \<notin> ex")
    case False
    show ?thesis unfolding save_articles_skip [OF False] using Cons.IH [of s] False by auto
  next
    case True
    then have t: "ident (inbox_articles s ! i) \<in> set sel" "ident (inbox_articles s ! i) \<notin> ex" by auto
    let ?a = "inbox_articles s ! i"
    let ?r = "\<lparr>saved_id = uuid_at W (reads s), article_id = ident (inbox_articles s ! i),
               folder = f, saved_at = now_at W (Suc (reads s)),
               saved_title = title (inbox_articles s ! i),
               saved_press = final_press (lib W) rows (inbox_articles s ! i),
               saved_published_at = published_at (inbox_articles s ! i),
               saved_link = link (inbox_articles s ! i),
               saved_summary = summary (inbox_articles s ! i),
               saved_negative_hits = negative_hits (inbox_articles s ! i)\<rparr>"
    let ?s4 = "s\<lparr>inbox_articles := (inbox_articles s)[i := ?a\<lparr>press := final_press (lib W) rows ?a\<rparr>],
          reads := Suc (Suc (reads s)),
          saved_articles := saved_articles s @ [?r]\<rparr>"
    obtain new where n: "saved_articles (save_articles W f sel ex rows rest ?s4) = saved_articles ?s4 @ new"
      and m: "(\<forall>i \<in> set rest. i < length (inbox_articles ?s4)) \<longrightarrow>
          map article_id new
            = filter (\<lambda>x. x \<in> set sel \<and> x \<notin> ex) (map (\<lambda>i. ident (inbox_articles ?s4 ! i)) rest)"
      using Cons.IH [of ?s4] by blast
    have ids: "ident (inbox_articles ?s4 ! k) = ident (inbox_articles s ! k)" if "k < length (inbox_articles s)" for k
      using that by (cases "k = i") simp_all
    have 1: "saved_articles (save_articles W f sel ex rows (i # rest) s) = saved_articles s @ (?r # new)"
      unfolding save_articles_take [OF t] n by simp
    have 2: "map article_id (?r # new)
            = filter (\<lambda>x. x \<in> set sel \<and> x \<notin> ex) (map (\<lambda>i. ident (inbox_articles s ! i)) (i # rest))"
      if r: "\<forall>k \<in> set (i # rest). k < length (inbox_articles s)"
    proof -
      have e: "map (\<lambda>i. ident (inbox_articles ?s4 ! i)) rest = map (\<lambda>i. ident (inbox_articles s ! i)) rest"
        using r ids by (intro map_cong) auto
      have "\<forall>i \<in> set rest. i < length (inbox_articles ?s4)" using r by simp
      with m have "map article_id new
            = filter (\<lambda>x. x \<in> set sel \<and> x \<notin> ex) (map (\<lambda>i. ident (inbox_articles ?s4 ! i)) rest)"
        by blast
      then have "map article_id new
            = filter (\<lambda>x. x \<in> set sel \<and> x \<notin> ex) (map (\<lambda>i. ident (inbox_articles s ! i)) rest)"
        by (simp only: e)
      then show ?thesis using t by simp
    qed
    show ?thesis using 1 2 by blast
  qed
qed

lemma filtered_articles_range:
  "i \<in> set (filtered_articles label s) \<Longrightarrow> i < length (inbox_articles s)"
  by (auto simp: filtered_articles_def Let_def set_py_sorted_reverse split: if_splits)

lemma distinct_filtered_articles: "distinct (filtered_articles label s)"
  by (simp add: filtered_articles_def Let_def distinct_py_sorted_reverse)

lemma save_articles_noop:
  "\<forall>i \<in> set is. \<not> (ident (inbox_articles s ! i) \<in> set sel \<and> ident (inbox_articles s ! i) \<notin> ex) \<Longrightarrow>
   save_articles W f sel ex rows is s = s"
proof (induction "is")
  case Nil
  then show ?case by simp
next
  case (Cons i rest)
  have n: "\<not> (ident (inbox_articles s ! i) \<in> set sel \<and> ident (inbox_articles s ! i) \<notin> ex)"
    using Cons.prems by simp
  have "save_articles W f sel ex rows (i # rest) s = save_articles W f sel ex rows rest s"
    by (rule save_articles_skip [OF n])
  also have "\<dots> = s" using Cons.prems by (intro Cons.IH) simp
  finally show ?case .
qed

lemma save_articles_length:
  "length (inbox_articles (save_articles W f sel ex rows is s)) = length (inbox_articles s)"
  using arg_cong [OF save_articles_fields [of W f sel ex rows "is" s], of length] by simp

lemma save_articles_idents:
  "map ident (inbox_articles (save_articles W f sel ex rows is s)) = map ident (inbox_articles s)"
  using arg_cong [OF save_articles_fields [of W f sel ex rows "is" s], of "map ident"]
  by (simp add: comp_def)


lemma page_inbox_save_eq:
  "page_inbox_save W f label rows s =
     save_articles W f (map row_id (filter row_selected rows)) (article_id ` set (saved_articles s))
       (edited_rows_by_id rows)
       (if map row_id (filter row_selected rows) = [] then [] else filtered_articles label s) s"
  by (simp add: page_inbox_save_def Let_def)




lemma page_inbox_save_article_ids:
  "\<exists>new. saved_articles (page_inbox_save W f label rows s) = saved_articles s @ new
     \<and> set (map article_id new) \<inter> article_id ` set (saved_articles s) = {}
     \<and> (distinct (map ident (inbox_articles s)) \<longrightarrow> distinct (map article_id new))"
proof -
  let ?sel = "map row_id (filter row_selected rows)"
  let ?ex = "article_id ` set (saved_articles s)"
  let ?is = "if ?sel = [] then [] else filtered_articles label s"
  have r: "\<forall>i \<in> set ?is. i < length (inbox_articles s)"
    by (auto simp: filtered_articles_range)
  obtain new where n: "saved_articles (page_inbox_save W f label rows s) = saved_articles s @ new"
    and m: "map article_id new
            = filter (\<lambda>x. x \<in> set ?sel \<and> x \<notin> ?ex) (map (\<lambda>i. ident (inbox_articles s ! i)) ?is)"
    unfolding page_inbox_save_eq using save_articles_saved [of W f ?sel ?ex _ ?is s] r by blast
  have d: "distinct ?is" by (simp add: distinct_filtered_articles)
  have "distinct (map (\<lambda>i. ident (inbox_articles s ! i)) ?is)" if "distinct (map ident (inbox_articles s))"
  proof -
    have "inj_on (\<lambda>i. ident (inbox_articles s ! i)) (set ?is)"
    proof (rule inj_onI)
      fix x y assume "x \<in> set ?is" "y \<in> set ?is"
        and e: "ident (inbox_articles s ! x) = ident (inbox_articles s ! y)"
      then have "x < length (map ident (inbox_articles s))" "y < length (map ident (inbox_articles s))"
        using r by auto
      moreover have "map ident (inbox_articles s) ! x = map ident (inbox_articles s) ! y"
        using e calculation by simp
      ultimately show "x = y" using that by (simp only: nth_eq_iff_index_eq)
    qed
    then show ?thesis using d by (simp add: distinct_map)
  qed
  then have "distinct (map ident (inbox_articles s)) \<longrightarrow> distinct (map article_id new)"
    unfolding m by (auto intro: distinct_filter)
  moreover have "set (map article_id new) \<inter> ?ex = {}" unfolding m by auto
  ultimately show ?thesis using n by blast
qed

lemma page_inbox_save_idents:
  "map ident (inbox_articles (page_inbox_save W f label rows s)) = map ident (inbox_articles s)"
  unfolding page_inbox_save_eq by (rule save_articles_idents)

lemma page_inbox_save_distinct:
  assumes "distinct (map article_id (saved_articles s))" "distinct (map ident (inbox_articles s))"
  shows "distinct (map article_id (saved_articles (page_inbox_save W f label rows s)))"
proof -
  obtain new where "saved_articles (page_inbox_save W f label rows s) = saved_articles s @ new"
     "set (map article_id new) \<inter> article_id ` set (saved_articles s) = {}"
     "distinct (map article_id new)"
    using page_inbox_save_article_ids [of W f label rows s] assms(2) by blast
  then show ?thesis using assms(1) by auto
qed

lemma promotions_distinct:
  "distinct (map article_id (saved_articles s)) \<Longrightarrow> distinct (map ident (inbox_articles s)) \<Longrightarrow>
   distinct (map article_id (saved_articles
     (foldl (\<lambda>s (f, label, rows). page_inbox_save W f label rows s) s ps)))"
proof (induction ps arbitrary: s)
  case Nil
  then show ?case by simp
next
  case (Cons p ps)
  obtain f label rows where p: "p = (f, label, rows)" by (metis prod_cases3)
  have "distinct (map article_id (saved_articles (page_inbox_save W f label rows s)))"
    using Cons.prems by (rule page_inbox_save_distinct)
  moreover have "distinct (map ident (inbox_articles (page_inbox_save W f label rows s)))"
    using Cons.prems by (simp only: page_inbox_save_idents)
  ultimately show ?case using Cons.IH [of "page_inbox_save W f label rows s"] by (simp add: p)
qed

text \<open>
  C5, as the claim states it, fails in its consequence: the ids are the first eight
  characters of a UUID and nothing keeps two staged articles from sharing one, and
  \<open>existing_ids\<close> is computed once, before the loop. From an empty archive, one promotion
  of two staged articles with the id \<open>a1\<close> saves two records with the article id \<open>a1\<close>.
\<close>

theorem promotion_saves_twin_ids_twice:
  "distinct (map article_id (saved_articles (twin_id_state (demo_world (day_clock 0) failing_feed))))
   \<and> map article_id (saved_articles
        (page_inbox_save (demo_world (day_clock 0) failing_feed) fallback_folder all_label
           [select_row (ascii ''a1'') (ascii ''A''), select_row (ascii ''a1'') (ascii ''A'')]
           (twin_id_state (demo_world (day_clock 0) failing_feed))))
     = [ascii ''a1'', ascii ''a1'']"
  by (simp add: promote_defs twin_id_state_def ascii_def)

text \<open>
  C5 (amended): promotion is idempotent per article id. When every selected id already
  has a saved record, the promotion changes nothing at all; for an id that already has a
  saved record, a promotion neither adds nor changes a record of that id, and the staged
  article of that id is left as it is. So from an archive with at most one record per
  article id and a staging store whose ids are unique, every sequence of promotions
  leads to an archive with at most one record per article id.
\<close>

theorem promotion_idempotent_per_article_id:
  "(set (map row_id (filter row_selected rows)) \<subseteq> article_id ` set (saved_articles s) \<longrightarrow>
      page_inbox_save W f label rows s = s)
   \<and> (x \<in> article_id ` set (saved_articles s) \<longrightarrow>
        filter (\<lambda>r. article_id r = x) (saved_articles (page_inbox_save W f label rows s))
          = filter (\<lambda>r. article_id r = x) (saved_articles s))
   \<and> (ident (inbox_articles s ! i) \<in> article_id ` set (saved_articles s) \<longrightarrow>
        inbox_articles (page_inbox_save W f label rows s) ! i = inbox_articles s ! i)
   \<and> (distinct (map article_id (saved_articles s)) \<and> distinct (map ident (inbox_articles s)) \<longrightarrow>
        distinct (map article_id (saved_articles
          (foldl (\<lambda>s (f, label, rows). page_inbox_save W f label rows s) s ps))))"
proof -
  let ?sel = "map row_id (filter row_selected rows)"
  have 1: "page_inbox_save W f label rows s = s"
    if "set (map row_id (filter row_selected rows)) \<subseteq> article_id ` set (saved_articles s)"
    unfolding page_inbox_save_eq using that by (intro save_articles_noop) blast
  have 2: "filter (\<lambda>r. article_id r = x) (saved_articles (page_inbox_save W f label rows s))
          = filter (\<lambda>r. article_id r = x) (saved_articles s)"
    if x: "x \<in> article_id ` set (saved_articles s)"
  proof -
    obtain new where n: "saved_articles (page_inbox_save W f label rows s) = saved_articles s @ new"
     and d: "set (map article_id new) \<inter> article_id ` set (saved_articles s) = {}"
      using page_inbox_save_article_ids [of W f label rows s] by blast
    have "filter (\<lambda>r. article_id r = x) new = []" using d x by (auto simp: filter_empty_conv)
    then show ?thesis by (simp add: n)
  qed
  have 3: "inbox_articles (page_inbox_save W f label rows s) ! i = inbox_articles s ! i"
    if "ident (inbox_articles s ! i) \<in> article_id ` set (saved_articles s)"
    unfolding page_inbox_save_eq using that by (intro save_articles_untouched) simp
  have 4: "distinct (map article_id (saved_articles
          (foldl (\<lambda>s (f, label, rows). page_inbox_save W f label rows s) s ps)))"
    if "distinct (map article_id (saved_articles s)) \<and> distinct (map ident (inbox_articles s))"
    using that promotions_distinct by blast
  show ?thesis using 1 2 3 4 by blast
qed

theorem promotion_idempotent_per_article_id_witness:
  "length (saved_articles
        (page_inbox_save (demo_world (day_clock 0) failing_feed) fallback_folder all_label
           [select_row (ascii ''a1'') (ascii ''B'')]
           (one_article_state (demo_world (day_clock 0) failing_feed)))) = 1
   \<and> page_inbox_save (demo_world (day_clock 0) failing_feed) fallback_folder all_label
        [select_row (ascii ''a1'') (ascii ''B'')]
        (page_inbox_save (demo_world (day_clock 0) failing_feed) fallback_folder all_label
           [select_row (ascii ''a1'') (ascii ''B'')]
           (one_article_state (demo_world (day_clock 0) failing_feed)))
     = page_inbox_save (demo_world (day_clock 0) failing_feed) fallback_folder all_label
           [select_row (ascii ''a1'') (ascii ''B'')]
           (one_article_state (demo_world (day_clock 0) failing_feed))"
proof -
  let ?W = "demo_world (day_clock 0) failing_feed"
  let ?s = "one_article_state ?W"
  let ?rows = "[select_row (ascii ''a1'') (ascii ''B'')]"
  let ?s1 = "page_inbox_save ?W fallback_folder all_label ?rows ?s"
  have ids: "map article_id (saved_articles ?s1) = [ascii ''a1'']"
    by (simp add: promote_defs)
  have l: "length (saved_articles ?s1) = 1"
    by (simp add: promote_defs)
  have "article_id ` set (saved_articles ?s1) = set (map article_id (saved_articles ?s1))" by simp
  then have h: "set (map row_id (filter row_selected ?rows)) \<subseteq> article_id ` set (saved_articles ?s1)"
    unfolding ids by (simp add: select_row_def)
  have "page_inbox_save ?W fallback_folder all_label ?rows ?s1 = ?s1"
    using promotion_idempotent_per_article_id [of ?rows ?s1 ?W fallback_folder all_label] h by blast
  then show ?thesis using l by simp
qed

end
